theory Spec2Isabelle
  imports Main "HOL-Library.Word"
begin

unbundle bit_operations_syntax

section \<open>The platform the driver runs on\<close>

text \<open>
  Modelled from the spec: the platform primitives of \<^verbatim>\<open>Arduino.h\<close> (\<^verbatim>\<open>pinMode\<close>,
  \<^verbatim>\<open>digitalWrite\<close>, \<^verbatim>\<open>digitalRead\<close>, \<^verbatim>\<open>delay\<close>, \<^verbatim>\<open>delayMicroseconds\<close>, \<^verbatim>\<open>micros\<close> and
  \<^verbatim>\<open>Serial\<close>), which \<^verbatim>\<open>MyDHT11.cpp\<close> calls and the repository does not contain; section 6
  of the specification lists them as the external interface. The two inputs of the driver
  are parameters: \<open>signal\<close> is the level that the \<open>k\<close>-th call of \<^verbatim>\<open>digitalRead\<close> returns
  on a pin, and \<open>clock\<close> the value that the \<open>k\<close>-th call of \<^verbatim>\<open>micros\<close> returns; the counters
  \<open>reads\<close> and \<open>stamps\<close> say how many calls there have been. Every behaviour of a real pin and
  a real clock is one choice of the two. The outputs of the driver are recorded: the mode of
  each pin, the level driven on it, the time spent in blocking delays, and what was printed.
\<close>

type_synonym u8 = "8 word"
type_synonym u32 = "32 word"

datatype level = LOW | HIGH

datatype pin_mode = INPUT | OUTPUT | INPUT_PULLUP

datatype serial_item = Print_text string | Println_text string | Println_number int

record board =
  signal :: "u8 \<Rightarrow> nat \<Rightarrow> level"
  clock :: "nat \<Rightarrow> u32"
  reads :: nat
  stamps :: nat
  modes :: "u8 \<Rightarrow> pin_mode option"
  driven :: "u8 \<Rightarrow> level option"
  slept_us :: nat
  serial :: "serial_item list"

definition pinMode :: "u8 \<Rightarrow> pin_mode \<Rightarrow> board \<Rightarrow> board" where
  "pinMode p m b = b\<lparr>modes := (modes b)(p \<mapsto> m)\<rparr>"

definition digitalWrite :: "u8 \<Rightarrow> level \<Rightarrow> board \<Rightarrow> board" where
  "digitalWrite p v b = b\<lparr>driven := (driven b)(p \<mapsto> v)\<rparr>"

definition delay :: "nat \<Rightarrow> board \<Rightarrow> board" where
  "delay ms b = b\<lparr>slept_us := slept_us b + 1000 * ms\<rparr>"

definition delayMicroseconds :: "nat \<Rightarrow> board \<Rightarrow> board" where
  "delayMicroseconds us b = b\<lparr>slept_us := slept_us b + us\<rparr>"

definition digitalRead :: "u8 \<Rightarrow> board \<Rightarrow> level \<times> board" where
  "digitalRead p b = (signal b p (reads b), b\<lparr>reads := reads b + 1\<rparr>)"

definition micros :: "board \<Rightarrow> u32 \<times> board" where
  "micros b = (clock b (stamps b), b\<lparr>stamps := stamps b + 1\<rparr>)"

definition Serial_print :: "string \<Rightarrow> board \<Rightarrow> board" where
  "Serial_print s b = b\<lparr>serial := serial b @ [Print_text s]\<rparr>"

definition Serial_println :: "string \<Rightarrow> board \<Rightarrow> board" where
  "Serial_println s b = b\<lparr>serial := serial b @ [Println_text s]\<rparr>"

definition Serial_println_number :: "int \<Rightarrow> board \<Rightarrow> board" where
  "Serial_println_number n b = b\<lparr>serial := serial b @ [Println_number n]\<rparr>"

text \<open>The values of the Arduino constants \<^verbatim>\<open>LOW\<close> (0x0) and \<^verbatim>\<open>HIGH\<close> (0x1), as the
  \<^verbatim>\<open>int\<close> that \<^verbatim>\<open>digitalRead\<close> returns.\<close>

fun level_code :: "level \<Rightarrow> int" where
  "level_code LOW = 0"
| "level_code HIGH = 1"

section \<open>The driver object\<close>

text \<open>The fields \<^verbatim>\<open>_pin\<close>, \<^verbatim>\<open>_temperature\<close> and \<^verbatim>\<open>_humidity\<close> of class
  \<^verbatim>\<open>MyDHT11\<close> (MyDHT11.h, lines 53 to 55). The two readings are C++ \<^verbatim>\<open>int\<close>s.\<close>

record MyDHT11 =
  pin :: u8
  temperature :: int
  humidity :: int

text \<open>The constructor (MyDHT11.cpp, lines 17 to 19).\<close>

definition MyDHT11_new :: "u8 \<Rightarrow> board \<Rightarrow> MyDHT11 \<times> board" where
  "MyDHT11_new p b = (\<lparr>pin = p, temperature = 0, humidity = 0\<rparr>, pinMode p INPUT b)"

definition getTemperature :: "MyDHT11 \<Rightarrow> int" where
  "getTemperature d = temperature d"

definition getHumidity :: "MyDHT11 \<Rightarrow> int" where
  "getHumidity d = humidity d"

section \<open>Reading a frame\<close>

text \<open>
  The four polling loops of \<^verbatim>\<open>read\<close> (lines 44-46, 49-51, 56-58 and 61-63) have one shape:
  \<^verbatim>\<open>while (digitalRead(_pin) == v) { if (loopCnt-- == 0) return false; }\<close>.
  \<open>poll_while v p loopCnt b\<close> runs it: \<open>None\<close> is the early \<^verbatim>\<open>return false\<close>,
  \<open>Some c\<close> is leaving the loop with \<open>c\<close> left in \<^verbatim>\<open>loopCnt\<close>. The counter is an
  \<^verbatim>\<open>unsigned int\<close>; its only wrap-around is the decrement at 0, whose result is dropped by
  the return, so a natural number holds it.
\<close>

fun poll_while :: "level \<Rightarrow> u8 \<Rightarrow> nat \<Rightarrow> board \<Rightarrow> nat option \<times> board" where
  "poll_while v p 0 b =
     (case digitalRead p b of (x, b') \<Rightarrow>
        if x = v then (None, b') else (Some 0, b'))"
| "poll_while v p (Suc c) b =
     (case digitalRead p b of (x, b') \<Rightarrow>
        if x = v then poll_while v p c b' else (Some (Suc c), b'))"

text \<open>
  Why a call of \<^verbatim>\<open>read\<close> stops before it has a frame: \<open>TimedOut\<close> is one of the four
  \<^verbatim>\<open>return false\<close> of the polling loops; \<open>BadIndex\<close> is a write outside \<^verbatim>\<open>bits[5]\<close>,
  which C++ leaves undefined.
\<close>

datatype fault = TimedOut | BadIndex

text \<open>
  \<^verbatim>\<open>bits[idx] |= (1 << cnt)\<close> (line 66). The C++ shifts an \<^verbatim>\<open>int\<close> and truncates the
  result of the \<^verbatim>\<open>|\<close> to eight bits; \<^verbatim>\<open>cnt\<close> is between 0 and 7 whenever the line runs,
  so the bit set is bit \<^verbatim>\<open>cnt\<close> of the byte.
\<close>

definition set_bit_at :: "u8 list \<Rightarrow> u8 \<Rightarrow> u8 \<Rightarrow> u8 list option" where
  "set_bit_at bits idx cnt =
     (if unat idx < length bits
      then Some (bits[unat idx := bits ! unat idx OR push_bit (unat cnt) 1])
      else None)"

text \<open>
  The body of the \<^verbatim>\<open>for\<close> loop (lines 55 to 74): one bit. Its last two statements are
  \<open>pack_bit\<close>: the store of lines 65 to 67, with \<open>one\<close> the outcome of
  \<^verbatim>\<open>(micros() - t) > 50\<close> and \<open>None\<close> the write outside the array, and then \<open>advance\<close>,
  the step of \<^verbatim>\<open>cnt\<close> and \<^verbatim>\<open>idx\<close> of lines 69 to 74. The body returns the new
  \<^verbatim>\<open>bits\<close>, \<^verbatim>\<open>cnt\<close> and \<^verbatim>\<open>idx\<close>.
\<close>

definition advance :: "u8 \<times> u8 \<Rightarrow> u8 \<times> u8" where
  "advance ci = (case ci of (cnt, idx) \<Rightarrow> if cnt = 0 then (7, idx + 1) else (cnt - 1, idx))"

definition pack_bit :: "bool \<Rightarrow> u8 list \<Rightarrow> u8 \<Rightarrow> u8 \<Rightarrow> (u8 list \<times> u8 \<times> u8) option" where
  "pack_bit one bits cnt idx =
     (case (if one then set_bit_at bits idx cnt else Some bits) of
        None \<Rightarrow> None
      | Some bits' \<Rightarrow> Some (bits', advance (cnt, idx)))"

definition read_bit ::
  "u8 \<Rightarrow> u8 list \<Rightarrow> u8 \<Rightarrow> u8 \<Rightarrow> board \<Rightarrow> (fault + u8 list \<times> u8 \<times> u8) \<times> board" where
  "read_bit p bits cnt idx b =
     (case poll_while LOW p 10000 b of
        (None, b1) \<Rightarrow> (Inl TimedOut, b1)
      | (Some loopCnt, b1) \<Rightarrow>
          (case micros b1 of (t, b2) \<Rightarrow>
             (case poll_while HIGH p loopCnt b2 of
                (None, b3) \<Rightarrow> (Inl TimedOut, b3)
              | (Some loopCnt', b3) \<Rightarrow>
                  (case micros b3 of (now, b4) \<Rightarrow>
                     (case pack_bit (now - t > 50) bits cnt idx of
                        None \<Rightarrow> (Inl BadIndex, b4)
                      | Some packed \<Rightarrow> (Inr packed, b4))))))"

text \<open>The loop \<^verbatim>\<open>for (int i = 0; i < 40; i++)\<close> (line 54), from the value \<open>i\<close> on.\<close>

function read_bits ::
  "nat \<Rightarrow> u8 \<Rightarrow> u8 list \<Rightarrow> u8 \<Rightarrow> u8 \<Rightarrow> board \<Rightarrow> (fault + u8 list) \<times> board" where
  "read_bits i p bits cnt idx b =
     (if i < 40 then
        (case read_bit p bits cnt idx b of
           (Inl f, b') \<Rightarrow> (Inl f, b')
         | (Inr (bits', cnt', idx'), b') \<Rightarrow> read_bits (i + 1) p bits' cnt' idx' b')
      else (Inr bits, b))"
  by pat_completeness auto
termination
  by (relation "measure (\<lambda>(i, p, bits, cnt, idx, b). 40 - i)") auto

declare read_bits.simps [simp del]

text \<open>The start signal (lines 36 to 41).\<close>

definition start_signal :: "u8 \<Rightarrow> board \<Rightarrow> board" where
  "start_signal p b =
     (let b = pinMode p OUTPUT b;
          b = digitalWrite p LOW b;
          b = delay 18 b;
          b = digitalWrite p HIGH b;
          b = delayMicroseconds 40 b
      in pinMode p INPUT_PULLUP b)"

text \<open>Lines 31 to 75 of \<^verbatim>\<open>read\<close>: the start signal, the two acknowledgment waits and
  the 40 bits.\<close>

definition read_frame :: "MyDHT11 \<Rightarrow> board \<Rightarrow> (fault + u8 list) \<times> board" where
  "read_frame d b =
     (case poll_while LOW (pin d) 10000 (start_signal (pin d) b) of
        (None, b1) \<Rightarrow> (Inl TimedOut, b1)
      | (Some loopCnt, b1) \<Rightarrow>
          (case poll_while HIGH (pin d) 30000 b1 of
             (None, b2) \<Rightarrow> (Inl TimedOut, b2)
           | (Some loopCnt', b2) \<Rightarrow> read_bits 0 (pin d) [0, 0, 0, 0, 0] 7 0 b2))"

text \<open>The checksum test of line 81, in C++ \<^verbatim>\<open>int\<close> arithmetic: the bytes are promoted
  before they are added.\<close>

definition checksum_ok :: "u8 list \<Rightarrow> bool" where
  "checksum_ok bits \<longleftrightarrow> uint (bits ! 4) = (uint (bits ! 0) + uint (bits ! 2)) AND 255"

text \<open>
  \<^verbatim>\<open>MyDHT11::read\<close> (lines 30 to 91). The result is \<open>None\<close> where the C++ has no defined
  behaviour, and otherwise the returned \<^verbatim>\<open>bool\<close> with the object and the board after the
  call.
\<close>

definition read :: "MyDHT11 \<Rightarrow> board \<Rightarrow> (bool \<times> MyDHT11 \<times> board) option" where
  "read d b =
     (case read_frame d b of
        (Inl TimedOut, b') \<Rightarrow> Some (False, d, b')
      | (Inl BadIndex, b') \<Rightarrow> None
      | (Inr bits, b') \<Rightarrow>
          (let d' = d\<lparr>humidity := uint (bits ! 0)\<rparr>;
               d' = d'\<lparr>temperature := uint (bits ! 2)\<rparr>
           in if checksum_ok bits then Some (True, d', b')
              else
                (let b' = Serial_println ''Checksum validation failed.'' b';
                     b' = Serial_print ''Calculated checksum: '' b';
                     b' = Serial_println_number ((uint (bits ! 0) + uint (bits ! 2)) AND 255) b';
                     b' = Serial_print ''Received checksum: '' b';
                     b' = Serial_println_number (uint (bits ! 4)) b'
                 in Some (False, d', b'))))"

section \<open>The helper waitForState\<close>

text \<open>
  \<^verbatim>\<open>MyDHT11::waitForState\<close> (lines 120 to 128). Its loop has no iteration budget: it
  ends when the pin shows \<^verbatim>\<open>state\<close> or when the clock has moved by more than
  \<^verbatim>\<open>timeout\<close>, and runs forever under a pin and a clock that do neither. \<open>None\<close> is that
  run. \<^verbatim>\<open>unsigned long\<close> is 32 bits wide on the boards the firmware is built for, and
  \<^verbatim>\<open>micros() - startTime\<close> wraps around.
\<close>

partial_function (option) waitForState_loop ::
  "u8 \<Rightarrow> u8 \<Rightarrow> u32 \<Rightarrow> u32 \<Rightarrow> board \<Rightarrow> (bool \<times> board) option" where
  "waitForState_loop p state timeout startTime b =
     (case digitalRead p b of (x, b1) \<Rightarrow>
        if level_code x \<noteq> uint state then
          (case micros b1 of (now, b2) \<Rightarrow>
             if now - startTime > timeout then Some (False, b2)
             else waitForState_loop p state timeout startTime b2)
        else Some (True, b1))"

definition waitForState ::
  "MyDHT11 \<Rightarrow> u8 \<Rightarrow> u32 \<Rightarrow> board \<Rightarrow> (bool \<times> MyDHT11 \<times> board) option" where
  "waitForState d state timeout b =
     (case micros b of (startTime, b0) \<Rightarrow>
        map_option (\<lambda>(r, b'). (r, d, b')) (waitForState_loop (pin d) state timeout startTime b0))"

section \<open>Sequences of calls\<close>

text \<open>The public operations on a constructed driver, what each returns, and a run of
  several of them in order on one object and one board.\<close>

datatype call = Read | GetTemperature | GetHumidity

datatype reply = Flag bool | Number int

fun invoke :: "call \<Rightarrow> MyDHT11 \<Rightarrow> board \<Rightarrow> (reply \<times> MyDHT11 \<times> board) option" where
  "invoke Read d b = map_option (\<lambda>(ok, d', b'). (Flag ok, d', b')) (read d b)"
| "invoke GetTemperature d b = Some (Number (getTemperature d), d, b)"
| "invoke GetHumidity d b = Some (Number (getHumidity d), d, b)"

fun session :: "call list \<Rightarrow> MyDHT11 \<Rightarrow> board \<Rightarrow> (reply list \<times> MyDHT11 \<times> board) option" where
  "session [] d b = Some ([], d, b)"
| "session (c # cs) d b =
     (case invoke c d b of
        None \<Rightarrow> None
      | Some (r, d', b') \<Rightarrow>
          map_option (\<lambda>(rs, d'', b''). (r # rs, d'', b'')) (session cs d' b'))"

fun byte_reply :: "reply \<Rightarrow> bool" where
  "byte_reply (Flag ok) = True"
| "byte_reply (Number v) = (0 \<le> v \<and> v \<le> 255)"

section \<open>Vocabulary of the statements\<close>

text \<open>Bit \<open>k\<close> of a frame in the order of transmission: bit \<open>7 - k mod 8\<close> of byte
  \<open>k div 8\<close>.\<close>

definition frame_bit :: "u8 list \<Rightarrow> nat \<Rightarrow> bool" where
  "frame_bit bits k = bit (bits ! (k div 8)) (7 - k mod 8)"

text \<open>The time that the \<open>k\<close>-th bit after board state \<open>b\<close> is measured to last: the
  difference of the two \<^verbatim>\<open>micros()\<close> values the loop body takes for it, as the
  \<^verbatim>\<open>unsigned long\<close> subtraction of line 65 computes it. \<open>long_pulse\<close> is the test of
  that line.\<close>

definition elapsed :: "board \<Rightarrow> nat \<Rightarrow> u32" where
  "elapsed b k = clock b (stamps b + 2 * k + 1) - clock b (stamps b + 2 * k)"

definition long_pulse :: "board \<Rightarrow> nat \<Rightarrow> bool" where
  "long_pulse b k \<longleftrightarrow> elapsed b k > 50"

text \<open>The byte that eight bits make when the first one is the most significant.\<close>

definition byte_of_bits :: "bool list \<Rightarrow> u8" where
  "byte_of_bits bs = foldl (\<lambda>acc one. 2 * acc + of_bool one) 0 bs"

text \<open>
  The shape of the line during one low wait followed by one high wait that both end: from
  poll \<open>pos\<close> on, the line reads low at \<open>k\<close> polls, then high at \<open>m + 1\<close> polls, then low.
  The first of the high polls ends the low wait, and the last low poll ends the high wait.
\<close>

definition pulse_at :: "(nat \<Rightarrow> level) \<Rightarrow> nat \<Rightarrow> nat \<Rightarrow> nat \<Rightarrow> bool" where
  "pulse_at sig pos k m \<longleftrightarrow>
     (\<forall>j<k. sig (pos + j) = LOW) \<and> sig (pos + k) = HIGH \<and>
     (\<forall>j<m. sig (pos + k + 1 + j) = HIGH) \<and> sig (pos + k + 1 + m) = LOW"

text \<open>The poll at which bit \<open>i\<close> begins, when the bits begin at poll \<open>s\<close> and bit \<open>j\<close> takes
  \<open>ks j\<close> low polls and \<open>ms j\<close> high polls besides the two polls that end its two waits.\<close>

primrec bit_start :: "nat \<Rightarrow> (nat \<Rightarrow> nat) \<Rightarrow> (nat \<Rightarrow> nat) \<Rightarrow> nat \<Rightarrow> nat" where
  "bit_start s ks ms 0 = s"
| "bit_start s ks ms (Suc i) = bit_start s ks ms i + ks i + ms i + 2"

text \<open>
  A call of \<^verbatim>\<open>read\<close> on driver \<open>d\<close> and board \<open>b\<close> gets its acknowledgment and its first
  \<open>n\<close> bits within the budgets: the acknowledgment is low for \<open>ka \<le> 10000\<close> polls and high for
  \<open>ma \<le> 30000\<close> more, and each bit \<open>i < n\<close> is low for \<open>ks i\<close> polls and high for \<open>ms i\<close>
  more, with \<open>ks i + ms i \<le> 10000\<close>. \<open>first_poll\<close> is the poll at which bit \<open>n\<close> then begins.
\<close>

definition first_poll :: "board \<Rightarrow> nat \<Rightarrow> nat \<Rightarrow> (nat \<Rightarrow> nat) \<Rightarrow> (nat \<Rightarrow> nat) \<Rightarrow> nat \<Rightarrow> nat" where
  "first_poll b ka ma ks ms n = bit_start (reads b + ka + ma + 2) ks ms n"

definition answers ::
  "MyDHT11 \<Rightarrow> board \<Rightarrow> nat \<Rightarrow> nat \<Rightarrow> (nat \<Rightarrow> nat) \<Rightarrow> (nat \<Rightarrow> nat) \<Rightarrow> nat \<Rightarrow> bool" where
  "answers d b ka ma ks ms n \<longleftrightarrow>
     ka \<le> 10000 \<and> ma \<le> 30000 \<and> pulse_at (signal b (pin d)) (reads b) ka ma \<and>
     (\<forall>i<n. ks i + ms i \<le> 10000 \<and>
        pulse_at (signal b (pin d)) (first_poll b ka ma ks ms i) (ks i) (ms i))"

section \<open>Test benches\<close>

text \<open>A board before any call, with a given pin signal and clock.\<close>

definition bench :: "(u8 \<Rightarrow> nat \<Rightarrow> level) \<Rightarrow> (nat \<Rightarrow> u32) \<Rightarrow> board" where
  "bench sig clk = \<lparr>signal = sig, clock = clk, reads = 0, stamps = 0,
     modes = Map.empty, driven = Map.empty, slept_us = 0, serial = []\<rparr>"

text \<open>A sensor that answers every poll at once: the line is high at every even poll and
  low at every odd one, so no wait takes a second poll.\<close>

definition square_wave :: "u8 \<Rightarrow> nat \<Rightarrow> level" where
  "square_wave p k = (if even k then HIGH else LOW)"

text \<open>A clock under which bit \<open>k\<close> of a call lasts \<open>long_us\<close> microseconds where the frame
  \<open>bytes\<close> has a 1 and \<open>short_us\<close> where it has a 0.\<close>

definition pulse_clock :: "u32 \<Rightarrow> u32 \<Rightarrow> u8 list \<Rightarrow> nat \<Rightarrow> u32" where
  "pulse_clock short_us long_us bytes k =
     (if even k then 0 else if frame_bit bytes (k div 2 mod 40) then long_us else short_us)"

section \<open>The polling loops\<close>

lemma poll_while_unfold:
  "poll_while v p n b =
     (if signal b p (reads b) = v
      then (if n = 0 then (None, b\<lparr>reads := reads b + 1\<rparr>)
            else poll_while v p (n - 1) (b\<lparr>reads := reads b + 1\<rparr>))
      else (Some n, b\<lparr>reads := reads b + 1\<rparr>))"
  by (cases n) (simp_all add: digitalRead_def)

lemma poll_while_leave:
  "k \<le> n \<Longrightarrow> signal b p (reads b + k) \<noteq> v \<Longrightarrow> (\<forall>j<k. signal b p (reads b + j) = v) \<Longrightarrow>
   poll_while v p n b = (Some (n - k), b\<lparr>reads := reads b + k + 1\<rparr>)"
proof (induction k arbitrary: n b)
  case 0
  then show ?case by (subst poll_while_unfold) simp
next
  case (Suc k)
  then obtain m where n: "n = Suc m" by (cases n) auto
  let ?b = "b\<lparr>reads := reads b + 1\<rparr>"
  from Suc.prems have first: "signal b p (reads b) = v" by (metis add.right_neutral zero_less_Suc)
  have "poll_while v p m ?b = (Some (m - k), ?b\<lparr>reads := reads ?b + k + 1\<rparr>)"
  proof (rule Suc.IH)
    show "k \<le> m" using Suc.prems n by simp
    show "signal ?b p (reads ?b + k) \<noteq> v" using Suc.prems by simp
    show "\<forall>j<k. signal ?b p (reads ?b + j) = v"
    proof (intro allI impI)
      fix j assume "j < k"
      then have "Suc j < Suc k" by simp
      with Suc.prems(3) have "signal b p (reads b + Suc j) = v" by blast
      then show "signal ?b p (reads ?b + j) = v" by simp
    qed
  qed
  with first n show ?case by (simp add: digitalRead_def)
qed

lemma poll_while_exhaust:
  "(\<forall>j\<le>n. signal b p (reads b + j) = v) \<Longrightarrow>
   poll_while v p n b = (None, b\<lparr>reads := reads b + n + 1\<rparr>)"
proof (induction n arbitrary: b)
  case 0
  then show ?case by (simp add: digitalRead_def)
next
  case (Suc n)
  let ?b = "b\<lparr>reads := reads b + 1\<rparr>"
  from Suc.prems have first: "signal b p (reads b) = v" by (metis add.right_neutral le0)
  have "poll_while v p n ?b = (None, ?b\<lparr>reads := reads ?b + n + 1\<rparr>)"
  proof (rule Suc.IH, intro allI impI)
    fix j assume "j \<le> n"
    then have "Suc j \<le> Suc n" by simp
    with Suc.prems have "signal b p (reads b + Suc j) = v" by blast
    then show "signal ?b p (reads ?b + j) = v" by simp
  qed
  with first show ?case by (simp add: digitalRead_def)
qed

text \<open>Every run of the loop is one of the two.\<close>

lemma poll_while_cases:
  obtains (exhaust) "\<forall>j\<le>n. signal b p (reads b + j) = v"
        "poll_while v p n b = (None, b\<lparr>reads := reads b + n + 1\<rparr>)"
  | (leave) k where "k \<le> n" "signal b p (reads b + k) \<noteq> v" "\<forall>j<k. signal b p (reads b + j) = v"
        "poll_while v p n b = (Some (n - k), b\<lparr>reads := reads b + k + 1\<rparr>)"
proof (cases "\<forall>j\<le>n. signal b p (reads b + j) = v")
  case True
  then show ?thesis using poll_while_exhaust exhaust by blast
next
  case False
  define k where "k = (LEAST j. signal b p (reads b + j) \<noteq> v)"
  from False obtain j0 where j0: "j0 \<le> n" "signal b p (reads b + j0) \<noteq> v" by auto
  have k1: "signal b p (reads b + k) \<noteq> v" unfolding k_def using j0(2) by (rule LeastI)
  have k2: "k \<le> j0" unfolding k_def using j0(2) by (rule Least_le)
  have k3: "\<forall>j<k. signal b p (reads b + j) = v"
    unfolding k_def using not_less_Least by blast
  from k2 j0 have "k \<le> n" by simp
  then show ?thesis using k1 k3 poll_while_leave leave by blast
qed


section \<open>One bit\<close>

text \<open>The three ways through the loop body: the low wait uses up the budget; the low
  wait leaves \<open>10000 - k\<close> of it and the high wait uses that up; or both waits end, after
  \<open>k\<close> and \<open>m\<close> polls, and the bit is measured and stored.\<close>

lemma read_bit_cases:
  obtains (low_timeout)
      "\<forall>j\<le>10000. signal b p (reads b + j) = LOW"
      "read_bit p bits cnt idx b = (Inl TimedOut, b\<lparr>reads := reads b + 10001\<rparr>)"
  | (high_timeout) k where
      "k \<le> 10000" "signal b p (reads b + k) \<noteq> LOW" "\<forall>j<k. signal b p (reads b + j) = LOW"
      "\<forall>j\<le>10000 - k. signal b p (reads b + k + 1 + j) = HIGH"
      "read_bit p bits cnt idx b =
         (Inl TimedOut, b\<lparr>reads := reads b + 10002, stamps := stamps b + 1\<rparr>)"
  | (measured) k m where
      "k \<le> 10000" "signal b p (reads b + k) \<noteq> LOW" "\<forall>j<k. signal b p (reads b + j) = LOW"
      "m \<le> 10000 - k" "signal b p (reads b + k + 1 + m) \<noteq> HIGH"
      "\<forall>j<m. signal b p (reads b + k + 1 + j) = HIGH"
      "read_bit p bits cnt idx b =
         (case pack_bit (long_pulse b 0) bits cnt idx of
            None \<Rightarrow> Inl BadIndex | Some packed \<Rightarrow> Inr packed,
          b\<lparr>reads := reads b + k + m + 2, stamps := stamps b + 2\<rparr>)"
proof (cases rule: poll_while_cases [of 10000 b p LOW])
  case exhaust
  then have "read_bit p bits cnt idx b = (Inl TimedOut, b\<lparr>reads := reads b + 10001\<rparr>)"
    by (simp add: read_bit_def)
  with exhaust(1) show ?thesis by (rule low_timeout)
next
  case (leave k)
  let ?b2 = "b\<lparr>reads := reads b + k + 1, stamps := stamps b + 1\<rparr>"
  have b2: "micros (b\<lparr>reads := reads b + k + 1\<rparr>) = (clock b (stamps b), ?b2)"
    by (simp add: micros_def)
  show ?thesis
  proof (cases rule: poll_while_cases [of "10000 - k" ?b2 p HIGH])
    case exhaust
    from exhaust(1) have sig: "\<forall>j\<le>10000 - k. signal b p (reads b + k + 1 + j) = HIGH"
      by simp
    have "read_bit p bits cnt idx b =
        (Inl TimedOut, b\<lparr>reads := reads b + 10002, stamps := stamps b + 1\<rparr>)"
    proof -
      have "reads b + k + 1 + (10000 - k) + 1 = reads b + 10002" using leave(1) by simp
      then show ?thesis
        by (simp only: read_bit_def leave(4) b2 exhaust(2) prod.case option.case)
          (simp add: add.commute add.left_commute)
    qed
    with leave(1-3) sig show ?thesis by (rule high_timeout)
  next
    case inner: (leave m)
    from inner(2) have s1: "signal b p (reads b + k + 1 + m) \<noteq> HIGH" by simp
    from inner(3) have s2: "\<forall>j<m. signal b p (reads b + k + 1 + j) = HIGH" by simp
    have "read_bit p bits cnt idx b =
         (case pack_bit (long_pulse b 0) bits cnt idx of
            None \<Rightarrow> Inl BadIndex | Some packed \<Rightarrow> Inr packed,
          b\<lparr>reads := reads b + k + m + 2, stamps := stamps b + 2\<rparr>)"
      by (simp only: read_bit_def leave(4) b2 inner(4) prod.case option.case)
        (simp add: micros_def long_pulse_def elapsed_def add.commute add.left_commute split: option.split)
    with leave(1-3) inner(1) s1 s2 show ?thesis by (rule measured)
  qed
qed


lemma pack_bit_step:
  assumes i: "i < 40" and len: "length bits = 5"
    and idx: "unat idx = i div 8" and cnt: "unat cnt = 7 - i mod 8"
  obtains bits' cnt' idx' where
    "pack_bit one bits cnt idx = Some (bits', cnt', idx')"
    "length bits' = 5" "unat idx' = (i + 1) div 8" "unat cnt' = 7 - (i + 1) mod 8"
    "\<forall>k<40. frame_bit bits' k \<longleftrightarrow> frame_bit bits k \<or> (one \<and> k = i)"
proof -
  define bits' where "bits' = (if one then bits[unat idx := bits ! unat idx OR push_bit (unat cnt) 1] else bits)"
  define cnt' where "cnt' = (if cnt = 0 then 7 else cnt - 1)"
  define idx' where "idx' = (if cnt = 0 then idx + 1 else idx)"
  from i idx len have inb: "unat idx < length bits" by simp
  then have eq: "pack_bit one bits cnt idx = Some (bits', cnt', idx')"
    by (simp add: pack_bit_def advance_def set_bit_at_def bits'_def cnt'_def idx'_def)
  have l: "length bits' = 5" using len by (simp add: bits'_def)
  have r8: "i mod 8 < 8" by simp
  have c0: "cnt = 0 \<longleftrightarrow> i mod 8 = 7"
  proof -
    have "cnt = 0 \<longleftrightarrow> unat cnt = 0" by (simp add: unat_eq_0)
    also have "\<dots> \<longleftrightarrow> i mod 8 = 7" using cnt r8 by linarith
    finally show ?thesis .
  qed
  have wrap: "i mod 8 = 7 \<Longrightarrow> (i + 1) div 8 = i div 8 + 1 \<and> (i + 1) mod 8 = 0"
    by (simp add: mod_Suc div_Suc)
  have stay: "i mod 8 \<noteq> 7 \<Longrightarrow> (i + 1) div 8 = i div 8 \<and> (i + 1) mod 8 = i mod 8 + 1"
    by (simp add: mod_Suc div_Suc)
  have i': "unat idx' = (i + 1) div 8"
  proof (cases "cnt = 0")
    case True
    have "unat (idx + 1) = unat idx + 1"
      using inb len by (simp add: unat_word_ariths)
    with True c0 idx wrap show ?thesis by (simp add: idx'_def)
  next
    case False
    with c0 idx stay show ?thesis by (simp add: idx'_def)
  qed
  have c': "unat cnt' = 7 - (i + 1) mod 8"
  proof (cases "cnt = 0")
    case True
    with c0 wrap show ?thesis by (simp add: cnt'_def)
  next
    case False
    then have "unat (cnt - 1) = unat cnt - 1"
      by (simp add: unat_minus_one)
    with False c0 cnt stay show ?thesis by (simp add: cnt'_def)
  qed
  have f: "\<forall>k<40. frame_bit bits' k \<longleftrightarrow> frame_bit bits k \<or> (one \<and> k = i)"
  proof (intro allI impI)
    fix k :: nat assume k: "k < 40"
    show "frame_bit bits' k \<longleftrightarrow> frame_bit bits k \<or> (one \<and> k = i)"
    proof (cases one)
      case False
      then show ?thesis by (simp add: bits'_def)
    next
      case True
      then have b': "bits' = bits[i div 8 := bits ! (i div 8) OR push_bit (7 - i mod 8) 1]"
        by (simp add: bits'_def idx cnt)
      show ?thesis
      proof (cases "k div 8 = i div 8")
        case same: True
        have "i div 8 < length bits" using inb idx by simp
        then have "bits' ! (k div 8) = bits ! (i div 8) OR push_bit (7 - i mod 8) 1"
          by (simp add: b' same)
        moreover have "7 - k mod 8 < 8" by simp
        ultimately have "frame_bit bits' k \<longleftrightarrow> frame_bit bits k \<or> 7 - k mod 8 = 7 - i mod 8"
          by (simp add: frame_bit_def same bit_or_iff bit_exp_iff possible_bit_word)
        also have "7 - k mod 8 = 7 - i mod 8 \<longleftrightarrow> k mod 8 = i mod 8"
        proof -
          have "k mod 8 < 8" by simp
          with r8 show ?thesis by linarith
        qed
        also have "k mod 8 = i mod 8 \<longleftrightarrow> k = i"
          using same by (metis div_mult_mod_eq)
        finally show ?thesis using True by simp
      next
        case diff: False
        then have "bits' ! (k div 8) = bits ! (k div 8)" by (simp add: b')
        moreover from diff have "k \<noteq> i" by auto
        ultimately show ?thesis by (simp add: frame_bit_def)
      qed
    qed
  qed
  from eq l i' c' f show ?thesis by (rule that)
qed


section \<open>The forty bits\<close>

lemma long_pulse_shift:
  "long_pulse (b\<lparr>reads := r, stamps := stamps b + 2\<rparr>) j = long_pulse b (j + 1)"
  by (simp add: long_pulse_def elapsed_def add.commute add.left_commute)

lemma read_bits_run:
  "i \<le> 40 \<Longrightarrow> length bits = 5 \<Longrightarrow> unat idx = i div 8 \<Longrightarrow> unat cnt = 7 - i mod 8 \<Longrightarrow>
   (\<exists>r s. read_bits i p bits cnt idx b =
        (Inl TimedOut, b\<lparr>reads := reads b + r, stamps := stamps b + s\<rparr>) \<and>
      r \<le> 10002 * (40 - i) \<and> s < 2 * (40 - i)) \<or>
   (\<exists>bits' r. read_bits i p bits cnt idx b =
        (Inr bits', b\<lparr>reads := reads b + r, stamps := stamps b + 2 * (40 - i)\<rparr>) \<and>
      r \<le> 10002 * (40 - i) \<and> length bits' = 5 \<and>
      (\<forall>k<40. frame_bit bits' k \<longleftrightarrow> frame_bit bits k \<or> (i \<le> k \<and> long_pulse b (k - i))))"
proof (induction "40 - i" arbitrary: i bits cnt idx b)
  case 0
  then have "i = 40" by simp
  then have "read_bits i p bits cnt idx b =
      (Inr bits, b\<lparr>reads := reads b + 0, stamps := stamps b + 2 * (40 - i)\<rparr>)"
    by (simp add: read_bits.simps)
  with 0 show ?case by auto
next
  case (Suc n)
  then have i: "i < 40" and n: "40 - (i + 1) = n" by simp_all
  have unf: "read_bits i p bits cnt idx b =
      (case read_bit p bits cnt idx b of
         (Inl f, b') \<Rightarrow> (Inl f, b')
       | (Inr (bits', cnt', idx'), b') \<Rightarrow> read_bits (i + 1) p bits' cnt' idx' b')"
    using i by (subst read_bits.simps) simp
  show ?case
  proof (cases rule: read_bit_cases [of b p bits cnt idx])
    case low_timeout
    then have "read_bits i p bits cnt idx b =
        (Inl TimedOut, b\<lparr>reads := reads b + 10001, stamps := stamps b + 0\<rparr>)"
      by (simp add: unf)
    moreover have "(10001::nat) \<le> 10002 * (40 - i)" "(0::nat) < 2 * (40 - i)" using i by simp_all
    ultimately show ?thesis by blast
  next
    case (high_timeout k)
    then have "read_bits i p bits cnt idx b =
        (Inl TimedOut, b\<lparr>reads := reads b + 10002, stamps := stamps b + 1\<rparr>)"
      by (simp add: unf)
    moreover have "(10002::nat) \<le> 10002 * (40 - i)" "(1::nat) < 2 * (40 - i)" using i by simp_all
    ultimately show ?thesis by blast
  next
    case (measured k m)
    let ?b1 = "b\<lparr>reads := reads b + k + m + 2, stamps := stamps b + 2\<rparr>"
    from pack_bit_step [OF i Suc.prems(2,3,4), of "long_pulse b 0"]
    obtain bits1 cnt1 idx1 where
      pk: "pack_bit (long_pulse b 0) bits cnt idx = Some (bits1, cnt1, idx1)"
      and l1: "length bits1 = 5" and i1: "unat idx1 = (i + 1) div 8"
      and c1: "unat cnt1 = 7 - (i + 1) mod 8"
      and f1: "\<forall>k<40. frame_bit bits1 k \<longleftrightarrow> frame_bit bits k \<or> (long_pulse b 0 \<and> k = i)"
      by blast
    have step: "read_bits i p bits cnt idx b = read_bits (i + 1) p bits1 cnt1 idx1 ?b1"
      by (simp add: unf measured(7) pk)
    have km: "k + m + 2 \<le> 10002" using measured(1,4) by simp
    from i have i': "i + 1 \<le> 40" by simp
    from Suc.hyps(1) [OF n [symmetric] i' l1 i1 c1, of ?b1]
    show ?thesis
    proof (elim disjE exE conjE)
      fix r s
      assume run: "read_bits (i + 1) p bits1 cnt1 idx1 ?b1 =
          (Inl TimedOut, ?b1\<lparr>reads := reads ?b1 + r, stamps := stamps ?b1 + s\<rparr>)"
        and r: "r \<le> 10002 * (40 - (i + 1))" and s: "s < 2 * (40 - (i + 1))"
      have "read_bits i p bits cnt idx b =
          (Inl TimedOut, b\<lparr>reads := reads b + (k + m + 2 + r), stamps := stamps b + (2 + s)\<rparr>)"
        by (simp only: step run) (simp add: add.assoc)
      moreover have "k + m + 2 + r \<le> 10002 * (40 - i)" using km r i by simp
      moreover have "2 + s < 2 * (40 - i)" using s i by simp
      ultimately show ?thesis by blast
    next
      fix bits' r
      assume run: "read_bits (i + 1) p bits1 cnt1 idx1 ?b1 =
          (Inr bits', ?b1\<lparr>reads := reads ?b1 + r, stamps := stamps ?b1 + 2 * (40 - (i + 1))\<rparr>)"
        and r: "r \<le> 10002 * (40 - (i + 1))" and l': "length bits' = 5"
        and f': "\<forall>k<40. frame_bit bits' k \<longleftrightarrow>
                  frame_bit bits1 k \<or> (i + 1 \<le> k \<and> long_pulse ?b1 (k - (i + 1)))"
      have e1: "reads ?b1 + r = reads b + (k + m + 2 + r)" by simp
      have e2: "stamps ?b1 + 2 * (40 - (i + 1)) = stamps b + 2 * (40 - i)" using i by simp
      from run have "read_bits (i + 1) p bits1 cnt1 idx1 ?b1 =
          (Inr bits', ?b1\<lparr>reads := reads b + (k + m + 2 + r), stamps := stamps b + 2 * (40 - i)\<rparr>)"
        by (simp only: e1 e2)
      then have "read_bits i p bits cnt idx b =
          (Inr bits', b\<lparr>reads := reads b + (k + m + 2 + r), stamps := stamps b + 2 * (40 - i)\<rparr>)"
        by (simp only: step) simp
      moreover have "k + m + 2 + r \<le> 10002 * (40 - i)" using km r i by simp
      moreover have "\<forall>j<40. frame_bit bits' j \<longleftrightarrow>
          frame_bit bits j \<or> (i \<le> j \<and> long_pulse b (j - i))"
      proof (intro allI impI)
        fix j :: nat assume j: "j < 40"
        have "frame_bit bits' j \<longleftrightarrow>
            frame_bit bits j \<or> (long_pulse b 0 \<and> j = i) \<or>
            (i + 1 \<le> j \<and> long_pulse b (j - (i + 1) + 1))"
          using f' f1 j by (simp only: long_pulse_shift) blast
        also have "\<dots> \<longleftrightarrow> frame_bit bits j \<or> (i \<le> j \<and> long_pulse b (j - i))"
        proof (cases "j = i")
          case True
          then show ?thesis by simp
        next
          case False
          then have "i \<le> j \<longleftrightarrow> i + 1 \<le> j" by auto
          moreover have "i + 1 \<le> j \<Longrightarrow> j - (i + 1) + 1 = j - i" by simp
          ultimately show ?thesis using False by auto
        qed
        finally show "frame_bit bits' j \<longleftrightarrow>
            frame_bit bits j \<or> (i \<le> j \<and> long_pulse b (j - i))" .
      qed
      ultimately show ?thesis using l' by blast
    qed
  qed
qed

lemma read_bits_stall:
  "fst (read_bits i p bits cnt idx b) = Inl TimedOut \<Longrightarrow>
   \<exists>n\<ge>reads b. signal b p n = signal b p (n + 1)"
proof (induction "40 - i" arbitrary: i bits cnt idx b)
  case 0
  then have "\<not> i < 40" by simp
  with 0(2) show ?case by (simp add: read_bits.simps)
next
  case (Suc n)
  then have i: "i < 40" and n: "n = 40 - (i + 1)" by simp_all
  have unf: "read_bits i p bits cnt idx b =
      (case read_bit p bits cnt idx b of
         (Inl f, b') \<Rightarrow> (Inl f, b')
       | (Inr (bits', cnt', idx'), b') \<Rightarrow> read_bits (i + 1) p bits' cnt' idx' b')"
    using i by (subst read_bits.simps) simp
  show ?case
  proof (cases rule: read_bit_cases [of b p bits cnt idx])
    case low_timeout
    from low_timeout(1) [rule_format, of 0] low_timeout(1) [rule_format, of 1]
    have "signal b p (reads b) = signal b p (reads b + 1)" by simp
    then show ?thesis by blast
  next
    case (high_timeout k)
    from high_timeout(2) have "signal b p (reads b + k) = HIGH" by (cases "signal b p (reads b + k)") auto
    moreover from high_timeout(4) [rule_format, of 0] have "signal b p (reads b + k + 1) = HIGH"
      by simp
    ultimately have "signal b p (reads b + k) = signal b p (reads b + k + 1)" by simp
    moreover have "reads b \<le> reads b + k" by simp
    ultimately show ?thesis by blast
  next
    case (measured k m)
    let ?b1 = "b\<lparr>reads := reads b + k + m + 2, stamps := stamps b + 2\<rparr>"
    show ?thesis
    proof (cases "pack_bit (long_pulse b 0) bits cnt idx")
      case None
      with Suc.prems show ?thesis by (simp add: unf measured(7))
    next
      case (Some packed)
      obtain bits1 cnt1 idx1 where packed: "packed = (bits1, cnt1, idx1)" by (cases packed) auto
      have "read_bits i p bits cnt idx b = read_bits (i + 1) p bits1 cnt1 idx1 ?b1"
        by (simp add: unf measured(7) Some packed)
      with Suc.prems have "fst (read_bits (i + 1) p bits1 cnt1 idx1 ?b1) = Inl TimedOut" by simp
      from Suc.hyps(1) [OF n this]
      obtain j where "reads ?b1 \<le> j" "signal ?b1 p j = signal ?b1 p (j + 1)" by blast
      then have "reads b \<le> j" "signal b p j = signal b p (j + 1)" by simp_all
      then show ?thesis by blast
    qed
  qed
qed

section \<open>The whole frame\<close>

lemma start_signal_inputs [simp]:
  "signal (start_signal p b) = signal b" "clock (start_signal p b) = clock b"
  "reads (start_signal p b) = reads b" "stamps (start_signal p b) = stamps b"
  by (simp_all add: start_signal_def pinMode_def digitalWrite_def delay_def
      delayMicroseconds_def Let_def)

lemma frame_bit_zero: "k < 40 \<Longrightarrow> \<not> frame_bit [0, 0, 0, 0, 0] k"
proof -
  assume "k < 40"
  then have "k div 8 < 5" by simp
  then have "k div 8 \<in> {0, 1, 2, 3, 4}" by auto
  then have "[0, 0, 0, 0, 0 :: u8] ! (k div 8) = 0" by auto
  then show ?thesis by (simp add: frame_bit_def)
qed

lemma long_pulse_cong:
  "clock b' = clock b \<Longrightarrow> stamps b' = stamps b \<Longrightarrow> long_pulse b' = long_pulse b"
  by (simp add: long_pulse_def elapsed_def fun_eq_iff)

text \<open>The four ways through \<open>read_frame\<close>.\<close>

lemma read_frame_cases:
  obtains (ack_low)
      "\<forall>j\<le>10000. signal b (pin d) (reads b + j) = LOW"
      "read_frame d b =
         (Inl TimedOut, (start_signal (pin d) b)\<lparr>reads := reads b + 10001\<rparr>)"
  | (ack_high) k where
      "k \<le> 10000" "signal b (pin d) (reads b + k) \<noteq> LOW" "\<forall>j<k. signal b (pin d) (reads b + j) = LOW"
      "\<forall>j\<le>30000. signal b (pin d) (reads b + k + 1 + j) = HIGH"
      "read_frame d b =
         (Inl TimedOut, (start_signal (pin d) b)\<lparr>reads := reads b + k + 30002\<rparr>)"
  | (bit_timeout) r s where
      "2 \<le> r" "r \<le> 440082" "s < 80"
      "\<exists>n\<ge>reads b. signal b (pin d) n = signal b (pin d) (n + 1)"
      "read_frame d b =
         (Inl TimedOut, (start_signal (pin d) b)\<lparr>reads := reads b + r, stamps := stamps b + s\<rparr>)"
  | (frame) bits r where
      "2 \<le> r" "r \<le> 440082" "length bits = 5"
      "\<forall>k<40. frame_bit bits k \<longleftrightarrow> long_pulse b k"
      "read_frame d b =
         (Inr bits, (start_signal (pin d) b)\<lparr>reads := reads b + r, stamps := stamps b + 80\<rparr>)"
proof (cases rule: poll_while_cases [of 10000 "start_signal (pin d) b" "pin d" LOW])
  case exhaust
  from exhaust(1) have "\<forall>j\<le>10000. signal b (pin d) (reads b + j) = LOW" by simp
  moreover from exhaust(2) have "read_frame d b = (Inl TimedOut, (start_signal (pin d) b)\<lparr>reads := reads b + 10001\<rparr>)"
    by (simp add: read_frame_def)
  ultimately show ?thesis by (rule ack_low)
next
  case (leave k)
  let ?b1 = "(start_signal (pin d) b)\<lparr>reads := reads b + k + 1\<rparr>"
  have p1: "poll_while LOW (pin d) 10000 (start_signal (pin d) b) = (Some (10000 - k), ?b1)"
    using leave(4) by simp
  from leave(2,3) have lo: "signal b (pin d) (reads b + k) \<noteq> LOW" "\<forall>j<k. signal b (pin d) (reads b + j) = LOW"
    by simp_all
  show ?thesis
  proof (cases rule: poll_while_cases [of 30000 ?b1 "pin d" HIGH])
    case exhaust
    from exhaust(1) have "\<forall>j\<le>30000. signal b (pin d) (reads b + k + 1 + j) = HIGH"
      by simp
    moreover have "read_frame d b = (Inl TimedOut, (start_signal (pin d) b)\<lparr>reads := reads b + k + 30002\<rparr>)"
      unfolding read_frame_def
      by (simp only: p1 exhaust(2) prod.case option.case) simp
    ultimately show ?thesis using leave(1) lo ack_high by blast
  next
    case inner: (leave m)
    let ?b2 = "(start_signal (pin d) b)\<lparr>reads := reads b + k + m + 2\<rparr>"
    have p2: "poll_while HIGH (pin d) 30000 ?b1 = (Some (30000 - m), ?b2)"
      by (simp only: inner(4)) (simp add: add.assoc)
    have rf: "read_frame d b = read_bits 0 (pin d) [0, 0, 0, 0, 0] 7 0 ?b2"
      unfolding read_frame_def
      by (simp only: p1 p2 prod.case option.case)
    have km: "k + m + 2 \<le> 40002" using leave(1) inner(1) by simp
    have lp: "long_pulse ?b2 = long_pulse b"
      by (rule long_pulse_cong) simp_all
    have "(0::nat) \<le> 40" "length [0, 0, 0, 0, 0 :: u8] = 5" "unat (0 :: u8) = 0 div 8"
      "unat (7 :: u8) = 7 - 0 mod 8" by simp_all
    from read_bits_run [OF this, of "pin d" ?b2]
    show ?thesis
    proof (elim disjE exE conjE)
      fix r s
      assume run: "read_bits 0 (pin d) [0, 0, 0, 0, 0] 7 0 ?b2 =
          (Inl TimedOut, ?b2\<lparr>reads := reads ?b2 + r, stamps := stamps ?b2 + s\<rparr>)"
        and r: "r \<le> 10002 * (40 - 0)" and s: "s < 2 * (40 - 0)"
      have "read_frame d b =
          (Inl TimedOut, (start_signal (pin d) b)\<lparr>reads := reads b + (k + m + 2 + r), stamps := stamps b + s\<rparr>)"
        by (simp only: rf run) (simp add: add.assoc)
      moreover have "2 \<le> k + m + 2 + r" "k + m + 2 + r \<le> 440082" "s < 80"
        using km r s by simp_all
      moreover have "\<exists>n\<ge>reads b. signal b (pin d) n = signal b (pin d) (n + 1)"
      proof -
        from run have "fst (read_bits 0 (pin d) [0, 0, 0, 0, 0] 7 0 ?b2) = Inl TimedOut"
          by (simp only: fst_conv)
        from read_bits_stall [OF this]
        obtain n where "reads ?b2 \<le> n" "signal ?b2 (pin d) n = signal ?b2 (pin d) (n + 1)"
          by blast
        then have "reads b \<le> n" "signal b (pin d) n = signal b (pin d) (n + 1)" by simp_all
        then show ?thesis by blast
      qed
      ultimately show ?thesis using bit_timeout by blast
    next
      fix bits r
      assume run: "read_bits 0 (pin d) [0, 0, 0, 0, 0] 7 0 ?b2 =
          (Inr bits, ?b2\<lparr>reads := reads ?b2 + r, stamps := stamps ?b2 + 2 * (40 - 0)\<rparr>)"
        and r: "r \<le> 10002 * (40 - 0)" and l: "length bits = 5"
        and f: "\<forall>k<40. frame_bit bits k \<longleftrightarrow>
                  frame_bit [0, 0, 0, 0, 0] k \<or> (0 \<le> k \<and> long_pulse ?b2 (k - 0))"
      have "read_frame d b =
          (Inr bits, (start_signal (pin d) b)\<lparr>reads := reads b + (k + m + 2 + r), stamps := stamps b + 80\<rparr>)"
        by (simp only: rf run) (simp add: add.assoc)
      moreover have "2 \<le> k + m + 2 + r" "k + m + 2 + r \<le> 440082"
        using km r by simp_all
      moreover have "\<forall>k<40. frame_bit bits k \<longleftrightarrow> long_pulse b k"
      proof (intro allI impI)
        fix j :: nat assume j: "j < 40"
        from f [rule_format, OF j] frame_bit_zero [OF j]
        show "frame_bit bits j \<longleftrightarrow> long_pulse b j" unfolding lp by simp
      qed
      ultimately show ?thesis using l frame by blast
    qed
  qed
qed

section \<open>Bytes of a frame\<close>

lemma byte_of_bits_horner: "byte_of_bits bs = horner_sum of_bool 2 (rev bs)"
  unfolding byte_of_bits_def by (induction bs rule: rev_induct) (simp_all add: add.commute)

lemma bit_byte_of_bits:
  "length bs = 8 \<Longrightarrow> n < 8 \<Longrightarrow> bit (byte_of_bits bs) n \<longleftrightarrow> bs ! (7 - n)"
  by (simp add: byte_of_bits_horner bit_horner_sum_bit_word_iff rev_nth)

lemma frame_bytes:
  assumes len: "length bits = 5" and f: "\<forall>k<40. frame_bit bits k \<longleftrightarrow> P k"
  shows "bits = map (\<lambda>q. byte_of_bits (map P [8 * q..<8 * q + 8])) [0..<5]"
proof (rule nth_equalityI)
  show "length bits = length (map (\<lambda>q. byte_of_bits (map P [8 * q..<8 * q + 8])) [0..<5])"
    using len by simp
next
  fix q assume "q < length bits"
  with len have q: "q < 5" by simp
  have "bits ! q = byte_of_bits (map P [8 * q..<8 * q + 8])"
  proof (rule bit_word_eqI)
    fix n assume "n < LENGTH(8)"
    then have n: "n < 8" by simp
    define m where "m = 7 - n"
    let ?k = "8 * q + m"
    have m: "m < 8" "7 - m = n" using n by (simp_all add: m_def)
    have k: "?k < 40" using q m by simp
    have dm: "?k div 8 = q" "?k mod 8 = m" using m by simp_all
    from f [rule_format, OF k] have "bit (bits ! q) n \<longleftrightarrow> P ?k"
      by (simp add: frame_bit_def dm m)
    moreover have "bit (byte_of_bits (map P [8 * q..<8 * q + 8])) n \<longleftrightarrow> P ?k"
      using n m by (simp add: bit_byte_of_bits m_def [symmetric])
    ultimately show "bit (bits ! q) n \<longleftrightarrow> bit (byte_of_bits (map P [8 * q..<8 * q + 8])) n"
      by simp
  qed
  with q show "bits ! q = map (\<lambda>q. byte_of_bits (map P [8 * q..<8 * q + 8])) [0..<5] ! q"
    by simp
qed

section \<open>Consequences for read_frame\<close>

lemma read_frame_no_BadIndex: "fst (read_frame d b) \<noteq> Inl BadIndex"
  by (cases rule: read_frame_cases [of b d]) simp_all

lemma read_frame_Inr:
  assumes "fst (read_frame d b) = Inr bits"
  shows "length bits = 5" and "\<forall>k<40. frame_bit bits k \<longleftrightarrow> long_pulse b k"
    and "stamps (snd (read_frame d b)) = stamps b + 80"
  using assms by (cases rule: read_frame_cases [of b d]; simp)+

lemma read_frame_polls:
  "reads b < reads (snd (read_frame d b)) \<and> reads (snd (read_frame d b)) \<le> reads b + 440082 \<and>
   stamps b \<le> stamps (snd (read_frame d b)) \<and> stamps (snd (read_frame d b)) \<le> stamps b + 80 \<and>
   signal (snd (read_frame d b)) = signal b \<and> clock (snd (read_frame d b)) = clock b"
  by (cases rule: read_frame_cases [of b d]) simp_all

lemma read_frame_prompt:
  assumes "\<forall>n. signal b (pin d) n \<noteq> signal b (pin d) (n + 1)"
  shows "fst (read_frame d b) =
     Inr (map (\<lambda>q. byte_of_bits (map (long_pulse b) [8 * q..<8 * q + 8])) [0..<5])"
proof (cases rule: read_frame_cases [of b d])
  case ack_low
  from ack_low(1) [rule_format, of 0] ack_low(1) [rule_format, of 1] assms [rule_format, of "reads b"]
  show ?thesis by simp
next
  case (ack_high k)
  from ack_high(2) have "signal b (pin d) (reads b + k) = HIGH"
    by (cases "signal b (pin d) (reads b + k)") auto
  with ack_high(4) [rule_format, of 0] assms [rule_format, of "reads b + k"]
  show ?thesis by simp
next
  case (bit_timeout r s)
  with assms show ?thesis by blast
next
  case (frame bits r)
  from frame_bytes [OF frame(3,4)] frame(5) show ?thesis by simp
qed

section \<open>What read does with the outcome of read_frame\<close>

lemma read_on_frame:
  assumes "fst (read_frame d b) = Inr bits"
  shows "\<exists>b'. read d b =
     Some (checksum_ok bits, d\<lparr>humidity := uint (bits ! 0), temperature := uint (bits ! 2)\<rparr>, b')"
proof -
  obtain x b1 where rf: "read_frame d b = (x, b1)" by (cases "read_frame d b")
  with assms have "x = Inr bits" by simp
  with rf show ?thesis by (simp add: read_def Let_def)
qed

lemma read_on_timeout:
  assumes "fst (read_frame d b) = Inl TimedOut"
  shows "read d b = Some (False, d, snd (read_frame d b))"
proof -
  obtain x b1 where rf: "read_frame d b = (x, b1)" by (cases "read_frame d b")
  with assms have "x = Inl TimedOut" by simp
  with rf show ?thesis by (simp add: read_def)
qed

lemma read_frame_stuck_low:
  assumes "\<forall>j\<le>10000. signal b (pin d) (reads b + j) = LOW"
  shows "read_frame d b = (Inl TimedOut, (start_signal (pin d) b)\<lparr>reads := reads b + 10001\<rparr>)"
proof -
  from assms have "\<forall>j\<le>10000. signal (start_signal (pin d) b) (pin d)
      (reads (start_signal (pin d) b) + j) = LOW" by simp
  from poll_while_exhaust [OF this] show ?thesis by (simp add: read_frame_def)
qed

section \<open>Frames on the test bench\<close>

lemma long_pulse_pulse_clock:
  assumes "clock b = pulse_clock s l bytes" "stamps b = 80 * c" "k < 40"
  shows "long_pulse b k \<longleftrightarrow> (if frame_bit bytes k then 50 < l else 50 < s)"
proof -
  have "(80 * c + 2 * k + 1) div 2 = 40 * c + k" by simp
  moreover have "(40 * c + k) mod 40 = k" using assms(3) by simp
  ultimately show ?thesis
    using assms(1,2) by (simp add: long_pulse_def elapsed_def pulse_clock_def)
qed

lemma square_wave_frame:
  assumes sig: "signal b = square_wave" and clk: "clock b = pulse_clock s l bytes"
    and st: "stamps b = 80 * c" and len: "length bytes = 5" and s: "s \<le> 50" and l: "50 < l"
  shows "fst (read_frame d b) = Inr bytes"
proof -
  have "\<forall>n. signal b (pin d) n \<noteq> signal b (pin d) (n + 1)"
    by (simp add: sig square_wave_def)
  then have rf: "fst (read_frame d b) =
      Inr (map (\<lambda>q. byte_of_bits (map (long_pulse b) [8 * q..<8 * q + 8])) [0..<5])"
    by (rule read_frame_prompt)
  have "\<forall>k<40. frame_bit bytes k \<longleftrightarrow> long_pulse b k"
    using long_pulse_pulse_clock [OF clk st] s l by (auto simp: not_less [symmetric])
  from frame_bytes [OF len this] rf show ?thesis by simp
qed

lemma bench_fields [simp]:
  "signal (bench sig clk) = sig" "clock (bench sig clk) = clk"
  "reads (bench sig clk) = 0" "stamps (bench sig clk) = 0"
  by (simp_all add: bench_def)

section \<open>The readings after a complete frame\<close>

text \<open>
  Claim C2. Whenever a call of \<^verbatim>\<open>read\<close> decodes a complete 40-bit frame \<open>bits\<close>, the call
  returns, and after it the stored humidity is byte 0 of the frame and the stored temperature
  is byte 2, whether the checksum test then passes (the call returns true) or fails (it
  returns false): lines 77 and 78 assign the fields before line 81 tests the checksum.
\<close>

theorem read_commits_before_checksum:
  assumes "fst (read_frame d b) = Inr bits"
  shows "\<exists>ok d' b'. read d b = Some (ok, d', b') \<and> (ok \<longleftrightarrow> checksum_ok bits) \<and>
           humidity d' = uint (bits ! 0) \<and> temperature d' = uint (bits ! 2)"
proof -
  from read_on_frame [OF assms] obtain b' where
    "read d b = Some (checksum_ok bits,
       d\<lparr>humidity := uint (bits ! 0), temperature := uint (bits ! 2)\<rparr>, b')" ..
  then show ?thesis by simp
qed

text \<open>The frame 45, 0, 22, 0, 1 has a wrong checksum; a driver that held 40 and 21 holds
  45 and 22 after reading it, and the call returns false.\<close>

theorem read_commits_before_checksum_witness:
  "fst (read_frame \<lparr>pin = 4, temperature = 21, humidity = 40\<rparr>
         (bench square_wave (pulse_clock 26 70 [45, 0, 22, 0, 1]))) = Inr [45, 0, 22, 0, 1] \<and>
   \<not> checksum_ok [45, 0, 22, 0, 1] \<and>
   (\<exists>ok d' b'. read \<lparr>pin = 4, temperature = 21, humidity = 40\<rparr>
         (bench square_wave (pulse_clock 26 70 [45, 0, 22, 0, 1])) = Some (ok, d', b') \<and>
      \<not> ok \<and> humidity d' = 45 \<and> temperature d' = 22)"
proof -
  let ?d = "\<lparr>pin = 4, temperature = 21, humidity = 40\<rparr>"
  let ?b = "bench square_wave (pulse_clock 26 70 [45, 0, 22, 0, 1])"
  have h: "fst (read_frame ?d ?b) = Inr [45, 0, 22, 0, 1]"
    by (rule square_wave_frame [where c = 0 and s = 26 and l = 70]) simp_all
  have c: "\<not> checksum_ok [45, 0, 22, 0, 1]" by (simp add: checksum_ok_def)
  from read_commits_before_checksum [OF h] c h show ?thesis by simp
qed

text \<open>
  Claim C1 says that a call of \<^verbatim>\<open>read\<close> that decodes a complete frame whose checksum is
  wrong returns false and leaves the stored humidity and temperature as they were. The code
  returns false but has overwritten both by then. On a freshly constructed driver, whose
  readings are 0 and 0, the frame 60, 0, 25, 0, 99 (60 + 25 = 85, not 99) makes \<^verbatim>\<open>read\<close>
  return false and leaves 60 and 25 in the object.
\<close>

theorem read_checksum_mismatch_overwrites:
  "getHumidity (fst (MyDHT11_new 2 (bench square_wave (pulse_clock 26 70 [60, 0, 25, 0, 99])))) = 0 \<and>
   getTemperature (fst (MyDHT11_new 2 (bench square_wave (pulse_clock 26 70 [60, 0, 25, 0, 99])))) = 0 \<and>
   fst (read_frame (fst (MyDHT11_new 2 (bench square_wave (pulse_clock 26 70 [60, 0, 25, 0, 99]))))
          (snd (MyDHT11_new 2 (bench square_wave (pulse_clock 26 70 [60, 0, 25, 0, 99])))))
     = Inr [60, 0, 25, 0, 99] \<and>
   \<not> checksum_ok [60, 0, 25, 0, 99] \<and>
   (\<exists>d' b'. read (fst (MyDHT11_new 2 (bench square_wave (pulse_clock 26 70 [60, 0, 25, 0, 99]))))
          (snd (MyDHT11_new 2 (bench square_wave (pulse_clock 26 70 [60, 0, 25, 0, 99]))))
        = Some (False, d', b') \<and>
      getHumidity d' = 60 \<and> getTemperature d' = 25)"
proof -
  let ?b0 = "bench square_wave (pulse_clock 26 70 [60, 0, 25, 0, 99])"
  let ?d = "fst (MyDHT11_new 2 ?b0)"
  let ?b = "snd (MyDHT11_new 2 ?b0)"
  have h: "fst (read_frame ?d ?b) = Inr [60, 0, 25, 0, 99]"
    by (rule square_wave_frame [where c = 0 and s = 26 and l = 70])
      (simp_all add: MyDHT11_new_def pinMode_def)
  have c: "\<not> checksum_ok [60, 0, 25, 0, 99]" by (simp add: checksum_ok_def)
  from read_on_frame [OF h] obtain b' where
    "read ?d ?b = Some (checksum_ok [60, 0, 25, 0, 99],
       ?d\<lparr>humidity := uint ([60, 0, 25, 0, 99 :: u8] ! 0),
           temperature := uint ([60, 0, 25, 0, 99 :: u8] ! 2)\<rparr>, b')" ..
  with c have "read ?d ?b = Some (False, ?d\<lparr>humidity := 60, temperature := 25\<rparr>, b')"
    by simp
  then have "\<exists>d' b'. read ?d ?b = Some (False, d', b') \<and>
      getHumidity d' = 60 \<and> getTemperature d' = 25"
    by (simp add: getHumidity_def getTemperature_def)
  moreover have "getHumidity ?d = 0" "getTemperature ?d = 0"
    by (simp_all add: MyDHT11_new_def getHumidity_def getTemperature_def)
  ultimately show ?thesis using h c by blast
qed

section \<open>Success and the checksum\<close>

text \<open>
  Claim C4. Whenever a call of \<^verbatim>\<open>read\<close> decodes a complete 40-bit frame \<open>bits\<close>, it returns
  true if and only if byte 4 equals \<^verbatim>\<open>(byte0 + byte2) & 0xFF\<close>, and when it returns true,
  \<^verbatim>\<open>getHumidity\<close> gives byte 0 and \<^verbatim>\<open>getTemperature\<close> gives byte 2 afterwards.
\<close>

theorem read_succeeds_iff_checksum:
  assumes "fst (read_frame d b) = Inr bits"
  shows "\<exists>ok d' b'. read d b = Some (ok, d', b') \<and>
           (ok \<longleftrightarrow> uint (bits ! 4) = (uint (bits ! 0) + uint (bits ! 2)) AND 255) \<and>
           (ok \<longrightarrow> getHumidity d' = uint (bits ! 0) \<and> getTemperature d' = uint (bits ! 2))"
proof -
  from read_on_frame [OF assms] obtain b' where
    "read d b = Some (checksum_ok bits,
       d\<lparr>humidity := uint (bits ! 0), temperature := uint (bits ! 2)\<rparr>, b')" ..
  then show ?thesis by (simp add: checksum_ok_def getHumidity_def getTemperature_def)
qed

text \<open>A signal that encodes the bytes 60, 0, 25, 0, 85: success, humidity 60,
  temperature 25.\<close>

theorem read_succeeds_iff_checksum_witness:
  "fst (read_frame \<lparr>pin = 2, temperature = 0, humidity = 0\<rparr>
         (bench square_wave (pulse_clock 26 70 [60, 0, 25, 0, 85]))) = Inr [60, 0, 25, 0, 85] \<and>
   (\<exists>d' b'. read \<lparr>pin = 2, temperature = 0, humidity = 0\<rparr>
         (bench square_wave (pulse_clock 26 70 [60, 0, 25, 0, 85])) = Some (True, d', b') \<and>
      getHumidity d' = 60 \<and> getTemperature d' = 25)"
proof -
  let ?d = "\<lparr>pin = 2, temperature = 0, humidity = 0\<rparr>"
  let ?b = "bench square_wave (pulse_clock 26 70 [60, 0, 25, 0, 85])"
  have h: "fst (read_frame ?d ?b) = Inr [60, 0, 25, 0, 85]"
    by (rule square_wave_frame [where c = 0 and s = 26 and l = 70]) simp_all
  from read_succeeds_iff_checksum [OF h] h show ?thesis by auto
qed

section \<open>Decoding\<close>

text \<open>The walk of \<^verbatim>\<open>cnt\<close> and \<^verbatim>\<open>idx\<close>: after \<open>i\<close> bits the counter is at
  \<open>7 - i mod 8\<close> and the index at \<open>i div 8\<close>.\<close>

lemma advance_walk:
  "(advance ^^ i) (7, 0) = (of_nat (7 - i mod 8), of_nat (i div 8))"
proof (induction i)
  case 0
  show ?case by simp
next
  case (Suc i)
  have r8: "i mod 8 < 8" by simp
  show ?case
  proof (cases "i mod 8 = 7")
    case True
    then have "Suc i mod 8 = 0" "Suc i div 8 = Suc (i div 8)" by (simp_all add: mod_Suc div_Suc)
    with True Suc.IH show ?thesis by (simp add: advance_def)
  next
    case False
    then have s: "Suc i mod 8 = Suc (i mod 8)" "Suc i div 8 = i div 8"
      by (simp_all add: mod_Suc div_Suc)
    define m where "m = 7 - i mod 8"
    from False r8 have pos: "1 \<le> m" "m < 8" "m - 1 = 7 - Suc (i mod 8)"
      by (simp_all add: m_def)
    have "unat (of_nat m :: u8) = m" using pos(2) by (simp add: unat_of_nat)
    with pos(1) have nz: "(of_nat m :: u8) \<noteq> 0" by auto
    have "(of_nat m :: u8) - 1 = of_nat (m - 1)"
      using pos(1) by (simp add: of_nat_diff)
    with nz have "advance (of_nat m, of_nat (i div 8)) = (of_nat (m - 1), of_nat (i div 8))"
      by (simp add: advance_def)
    with Suc.IH s pos(3) show ?thesis by (simp add: m_def [symmetric])
  qed
qed

text \<open>
  Claim C5. At every bit position \<open>k\<close> of a decoded frame, the bit is 1 exactly when the
  elapsed time measured for it, \<open>elapsed b k\<close>, is greater than 50 microseconds: an elapsed
  time of exactly 50 decodes as 0, and one of 51 decodes as 1.
\<close>

theorem bit_threshold:
  assumes "fst (read_frame d b) = Inr bits" and "k < 40"
  shows "(frame_bit bits k \<longleftrightarrow> 50 < elapsed b k) \<and>
         (elapsed b k = 50 \<longrightarrow> \<not> frame_bit bits k) \<and>
         (elapsed b k = 51 \<longrightarrow> frame_bit bits k)"
proof -
  from read_frame_Inr(2) [OF assms(1)] assms(2)
  have "frame_bit bits k \<longleftrightarrow> 50 < elapsed b k" by (simp add: long_pulse_def)
  then show ?thesis by auto
qed

text \<open>The frame 60, 0, 25, 0, 85 sent with pulses of 50 microseconds for a 0 and 51 for a 1
  is decoded as sent: bit 0 lasts 50 and is 0, bit 2 lasts 51 and is 1.\<close>

theorem bit_threshold_witness:
  "fst (read_frame \<lparr>pin = 2, temperature = 0, humidity = 0\<rparr>
         (bench square_wave (pulse_clock 50 51 [60, 0, 25, 0, 85]))) = Inr [60, 0, 25, 0, 85] \<and>
   elapsed (bench square_wave (pulse_clock 50 51 [60, 0, 25, 0, 85])) 0 = 50 \<and>
   \<not> frame_bit [60, 0, 25, 0, 85] 0 \<and>
   elapsed (bench square_wave (pulse_clock 50 51 [60, 0, 25, 0, 85])) 2 = 51 \<and>
   frame_bit [60, 0, 25, 0, 85] 2"
proof -
  let ?d = "\<lparr>pin = 2, temperature = 0, humidity = 0\<rparr>"
  let ?b = "bench square_wave (pulse_clock 50 51 [60, 0, 25, 0, 85])"
  have h: "fst (read_frame ?d ?b) = Inr [60, 0, 25, 0, 85]"
    by (rule square_wave_frame [where c = 0 and s = 50 and l = 51]) simp_all
  have e0: "elapsed ?b 0 = 50" and e2: "elapsed ?b 2 = 51"
    by (simp_all add: elapsed_def pulse_clock_def frame_bit_def)
  from bit_threshold [OF h, of 0] e0 have "\<not> frame_bit [60, 0, 25, 0, 85] 0" by simp
  moreover from bit_threshold [OF h, of 2] e2 have "frame_bit [60, 0, 25, 0, 85] 2" by simp
  ultimately show ?thesis using h e0 e2 by blast
qed

text \<open>
  Claim C6. The 40 bits of a decoded frame are packed most significant bit first: byte \<open>q\<close>
  of the buffer is made of the bits \<open>8 * q\<close> to \<open>8 * q + 7\<close> of the stream, the first of
  them in bit 7, so bit \<open>k\<close> of the stream is bit \<open>7 - k mod 8\<close> of byte \<open>k div 8\<close>. The
  counter starts at 7, goes down by one with each bit, and after position 0 goes back to 7
  while the index moves to the next byte. Byte 0 is the humidity, byte 2 the temperature and
  byte 4 the checksum: after a successful read the getters give bytes 0 and 2.
\<close>

theorem frame_packing:
  assumes "fst (read_frame d b) = Inr bits"
  shows "length bits = 5 \<and>
         (\<forall>q<5. bits ! q = byte_of_bits (map (long_pulse b) [8 * q..<8 * q + 8])) \<and>
         (\<forall>k<40. frame_bit bits k \<longleftrightarrow> long_pulse b k) \<and>
         (\<forall>i. (advance ^^ i) (7, 0) = (of_nat (7 - i mod 8), of_nat (i div 8))) \<and>
         (\<exists>ok d' b'. read d b = Some (ok, d', b') \<and> (ok \<longleftrightarrow> checksum_ok bits) \<and>
            (ok \<longrightarrow> getHumidity d' = uint (bits ! 0) \<and> getTemperature d' = uint (bits ! 2)))"
proof -
  note fr = read_frame_Inr [OF assms]
  have bytes: "\<forall>q<5. bits ! q = byte_of_bits (map (long_pulse b) [8 * q..<8 * q + 8])"
  proof (intro allI impI)
    fix q :: nat assume q: "q < 5"
    have "bits ! q = map (\<lambda>q. byte_of_bits (map (long_pulse b) [8 * q..<8 * q + 8])) [0..<5] ! q"
      using frame_bytes [OF fr(1,2)] by simp
    with q show "bits ! q = byte_of_bits (map (long_pulse b) [8 * q..<8 * q + 8])" by simp
  qed
  from read_on_frame [OF assms] obtain b' where
    "read d b = Some (checksum_ok bits,
       d\<lparr>humidity := uint (bits ! 0), temperature := uint (bits ! 2)\<rparr>, b')" ..
  then have "\<exists>ok d' b'. read d b = Some (ok, d', b') \<and> (ok \<longleftrightarrow> checksum_ok bits) \<and>
            (ok \<longrightarrow> getHumidity d' = uint (bits ! 0) \<and> getTemperature d' = uint (bits ! 2))"
    by (simp add: getHumidity_def getTemperature_def)
  with fr(1,2) bytes advance_walk show ?thesis by blast
qed

text \<open>A stream that encodes the bytes 1, 0, 0, 0, 1: only bits 7 and 39 are long, the read
  succeeds, the humidity is 1 and the temperature 0.\<close>

theorem frame_packing_witness:
  "fst (read_frame \<lparr>pin = 2, temperature = 0, humidity = 0\<rparr>
         (bench square_wave (pulse_clock 26 70 [1, 0, 0, 0, 1]))) = Inr [1, 0, 0, 0, 1] \<and>
   byte_of_bits (map (long_pulse (bench square_wave (pulse_clock 26 70 [1, 0, 0, 0, 1]))) [0..<8]) = 1 \<and>
   long_pulse (bench square_wave (pulse_clock 26 70 [1, 0, 0, 0, 1])) 7 \<and>
   \<not> long_pulse (bench square_wave (pulse_clock 26 70 [1, 0, 0, 0, 1])) 0 \<and>
   (\<exists>d' b'. read \<lparr>pin = 2, temperature = 0, humidity = 0\<rparr>
         (bench square_wave (pulse_clock 26 70 [1, 0, 0, 0, 1])) = Some (True, d', b') \<and>
      getHumidity d' = 1 \<and> getTemperature d' = 0)"
proof -
  let ?d = "\<lparr>pin = 2, temperature = 0, humidity = 0\<rparr>"
  let ?b = "bench square_wave (pulse_clock 26 70 [1, 0, 0, 0, 1])"
  have h: "fst (read_frame ?d ?b) = Inr [1, 0, 0, 0, 1]"
    by (rule square_wave_frame [where c = 0 and s = 26 and l = 70]) simp_all
  have c: "checksum_ok [1, 0, 0, 0, 1]" by (simp add: checksum_ok_def)
  note p = frame_packing [OF h]
  from p have "\<forall>q<5. [1, 0, 0, 0, 1 :: u8] ! q =
      byte_of_bits (map (long_pulse ?b) [8 * q..<8 * q + 8])" by blast
  from this [rule_format, of 0] have b0: "byte_of_bits (map (long_pulse ?b) [0..<8]) = 1"
    by simp
  from p have "frame_bit [1, 0, 0, 0, 1] 7 \<longleftrightarrow> long_pulse ?b 7"
    "frame_bit [1, 0, 0, 0, 1] 0 \<longleftrightarrow> long_pulse ?b 0" by simp_all
  then have lp: "long_pulse ?b 7" "\<not> long_pulse ?b 0" by (simp_all add: frame_bit_def)
  from p c have "\<exists>d' b'. read ?d ?b = Some (True, d', b') \<and>
      getHumidity d' = 1 \<and> getTemperature d' = 0" by auto
  with h b0 lp show ?thesis by blast
qed

section \<open>Timeouts, termination and budgets\<close>

lemma read_board:
  assumes "read d b = Some (ok, d', b')"
  shows "reads b' = reads (snd (read_frame d b))" "stamps b' = stamps (snd (read_frame d b))"
    "signal b' = signal (snd (read_frame d b))" "clock b' = clock (snd (read_frame d b))"
    "pin d' = pin d"
  using assms
  by (auto simp: read_def Let_def Serial_print_def Serial_println_def Serial_println_number_def
      split: prod.splits sum.splits fault.splits if_splits)

lemma read_total: "\<exists>ok d' b'. read d b = Some (ok, d', b')"
proof (cases "fst (read_frame d b)")
  case (Inl f)
  with read_frame_no_BadIndex [of d b] have "fst (read_frame d b) = Inl TimedOut"
    by (cases f) auto
  from read_on_timeout [OF this] show ?thesis by blast
next
  case (Inr bits)
  from read_on_frame [OF this] show ?thesis by blast
qed

lemma read_frame_stuck_high:
  assumes k: "k \<le> 10000" and out: "signal b (pin d) (reads b + k) \<noteq> LOW"
    and low: "\<forall>j<k. signal b (pin d) (reads b + j) = LOW"
    and high: "\<forall>j\<le>30000. signal b (pin d) (reads b + k + 1 + j) = HIGH"
  shows "read_frame d b = (Inl TimedOut, (start_signal (pin d) b)\<lparr>reads := reads b + k + 30002\<rparr>)"
proof -
  let ?b0 = "start_signal (pin d) b"
  let ?b1 = "?b0\<lparr>reads := reads b + k + 1\<rparr>"
  have p1: "poll_while LOW (pin d) 10000 ?b0 = (Some (10000 - k), ?b1)"
    using poll_while_leave [of k 10000 ?b0 "pin d" LOW] k out low by simp
  have "\<forall>j\<le>30000. signal ?b1 (pin d) (reads ?b1 + j) = HIGH" using high by simp
  from poll_while_exhaust [OF this]
  have p2: "poll_while HIGH (pin d) 30000 ?b1 = (None, ?b0\<lparr>reads := reads b + k + 30002\<rparr>)"
    by simp
  show ?thesis unfolding read_frame_def by (simp only: p1 p2 prod.case option.case)
qed

lemma read_bit_low_timeout:
  assumes "\<forall>j\<le>10000. signal b p (reads b + j) = LOW"
  shows "read_bit p bits cnt idx b = (Inl TimedOut, b\<lparr>reads := reads b + 10001\<rparr>)"
  using poll_while_exhaust [OF assms] by (simp add: read_bit_def)

lemma read_bit_high_timeout:
  assumes k: "k \<le> 10000" and out: "signal b p (reads b + k) \<noteq> LOW"
    and low: "\<forall>j<k. signal b p (reads b + j) = LOW"
    and high: "\<forall>j\<le>10000 - k. signal b p (reads b + k + 1 + j) = HIGH"
  shows "read_bit p bits cnt idx b =
     (Inl TimedOut, b\<lparr>reads := reads b + 10002, stamps := stamps b + 1\<rparr>)"
proof -
  let ?b1 = "b\<lparr>reads := reads b + k + 1\<rparr>"
  let ?b2 = "b\<lparr>reads := reads b + k + 1, stamps := stamps b + 1\<rparr>"
  have p1: "poll_while LOW p 10000 b = (Some (10000 - k), ?b1)"
    using poll_while_leave [OF k out low] .
  have m: "micros ?b1 = (clock b (stamps b), ?b2)" by (simp add: micros_def)
  have "\<forall>j\<le>10000 - k. signal ?b2 p (reads ?b2 + j) = HIGH" using high by simp
  from poll_while_exhaust [OF this]
  have "poll_while HIGH p (10000 - k) ?b2 = (None, ?b2\<lparr>reads := reads b + k + 1 + (10000 - k) + 1\<rparr>)"
    by simp
  moreover have "reads b + k + 1 + (10000 - k) + 1 = reads b + 10002" using k by simp
  ultimately have p2: "poll_while HIGH p (10000 - k) ?b2 =
      (None, b\<lparr>reads := reads b + 10002, stamps := stamps b + 1\<rparr>)" by simp
  show ?thesis unfolding read_bit_def by (simp only: p1 m p2 prod.case option.case)
qed

lemma read_bits_propagates:
  assumes "i < 40" "fst (read_bit p bits cnt idx b) = Inl f"
  shows "read_bits i p bits cnt idx b = (Inl f, snd (read_bit p bits cnt idx b))"
proof -
  obtain x b1 where rb: "read_bit p bits cnt idx b = (x, b1)" by (cases "read_bit p bits cnt idx b")
  with assms(2) have "x = Inl f" by simp
  with rb assms(1) show ?thesis by (subst read_bits.simps) simp
qed

lemma read_frame_acked:
  assumes k: "k \<le> 10000" and out: "signal b (pin d) (reads b + k) \<noteq> LOW"
    and low: "\<forall>j<k. signal b (pin d) (reads b + j) = LOW"
    and m: "m \<le> 30000" and out': "signal b (pin d) (reads b + k + 1 + m) \<noteq> HIGH"
    and high: "\<forall>j<m. signal b (pin d) (reads b + k + 1 + j) = HIGH"
  shows "read_frame d b =
     read_bits 0 (pin d) [0, 0, 0, 0, 0] 7 0
       ((start_signal (pin d) b)\<lparr>reads := reads b + k + m + 2\<rparr>)"
proof -
  let ?b0 = "start_signal (pin d) b"
  let ?b1 = "?b0\<lparr>reads := reads b + k + 1\<rparr>"
  have p1: "poll_while LOW (pin d) 10000 ?b0 = (Some (10000 - k), ?b1)"
    using poll_while_leave [of k 10000 ?b0 "pin d" LOW] k out low by simp
  have "signal ?b1 (pin d) (reads ?b1 + m) \<noteq> HIGH"
    "\<forall>j<m. signal ?b1 (pin d) (reads ?b1 + j) = HIGH" using out' high by simp_all
  from poll_while_leave [OF m this]
  have p2: "poll_while HIGH (pin d) 30000 ?b1 =
      (Some (30000 - m), ?b0\<lparr>reads := reads b + k + m + 2\<rparr>)"
    by (simp add: add.assoc)
  show ?thesis unfolding read_frame_def by (simp only: p1 p2 prod.case option.case)
qed

text \<open>
  Claim C3. A call of \<^verbatim>\<open>read\<close> that stops on a timeout returns false and leaves the stored
  humidity and temperature as they were before the call. \<open>read_frame\<close> has the value
  \<open>Inl TimedOut\<close> exactly when one of the four polling loops runs out of budget: the low
  or the high phase of the acknowledgment, or the low or the high wait of one of the 40
  bits.
\<close>

theorem read_timeout_keeps_readings:
  assumes "fst (read_frame d b) = Inl TimedOut"
  shows "\<exists>d' b'. read d b = Some (False, d', b') \<and>
           humidity d' = humidity d \<and> temperature d' = temperature d \<and>
           getHumidity d' = getHumidity d \<and> getTemperature d' = getTemperature d"
  using read_on_timeout [OF assms] by simp

text \<open>Three lines, one for each place where the call can give up: a line that stays low
  (the low phase of the acknowledgment times out); a line that goes high after three polls
  and stays high (the high phase times out); and a line that answers the acknowledgment at
  once and then stays low (the low wait of the first bit times out). Each time a driver that
  held 60 and 25 still holds them.\<close>

theorem read_timeout_keeps_readings_witness:
  "fst (read_frame \<lparr>pin = 2, temperature = 25, humidity = 60\<rparr>
         (bench (\<lambda>p n. LOW) (\<lambda>n. 0))) = Inl TimedOut \<and>
   (\<exists>d' b'. read \<lparr>pin = 2, temperature = 25, humidity = 60\<rparr> (bench (\<lambda>p n. LOW) (\<lambda>n. 0))
        = Some (False, d', b') \<and>
      humidity d' = 60 \<and> temperature d' = 25 \<and> getHumidity d' = 60 \<and> getTemperature d' = 25) \<and>
   fst (read_frame \<lparr>pin = 2, temperature = 25, humidity = 60\<rparr>
         (bench (\<lambda>p n. if n < 3 then LOW else HIGH) (\<lambda>n. 0))) = Inl TimedOut \<and>
   (\<exists>d' b'. read \<lparr>pin = 2, temperature = 25, humidity = 60\<rparr>
          (bench (\<lambda>p n. if n < 3 then LOW else HIGH) (\<lambda>n. 0))
        = Some (False, d', b') \<and>
      humidity d' = 60 \<and> temperature d' = 25 \<and> getHumidity d' = 60 \<and> getTemperature d' = 25) \<and>
   fst (read_frame \<lparr>pin = 2, temperature = 25, humidity = 60\<rparr>
         (bench (\<lambda>p n. if n = 0 then HIGH else LOW) (\<lambda>n. 0))) = Inl TimedOut \<and>
   (\<exists>d' b'. read \<lparr>pin = 2, temperature = 25, humidity = 60\<rparr>
          (bench (\<lambda>p n. if n = 0 then HIGH else LOW) (\<lambda>n. 0))
        = Some (False, d', b') \<and>
      humidity d' = 60 \<and> temperature d' = 25 \<and> getHumidity d' = 60 \<and> getTemperature d' = 25)"
proof -
  let ?d = "\<lparr>pin = 2, temperature = 25, humidity = 60\<rparr>"
  let ?low = "bench (\<lambda>p n. LOW) (\<lambda>n. 0)"
  let ?high = "bench (\<lambda>p n. if n < 3 then LOW else HIGH) (\<lambda>n. 0)"
  let ?bit = "bench (\<lambda>p n. if n = 0 then HIGH else LOW) (\<lambda>n. 0)"
  have "\<forall>j\<le>10000. signal ?low (pin ?d) (reads ?low + j) = LOW" by simp
  from read_frame_stuck_low [OF this] have h1: "fst (read_frame ?d ?low) = Inl TimedOut" by simp
  have "(3::nat) \<le> 10000" "signal ?high (pin ?d) (reads ?high + 3) \<noteq> LOW"
    "\<forall>j<3. signal ?high (pin ?d) (reads ?high + j) = LOW"
    "\<forall>j\<le>30000. signal ?high (pin ?d) (reads ?high + 3 + 1 + j) = HIGH" by simp_all
  from read_frame_stuck_high [OF this] have h2: "fst (read_frame ?d ?high) = Inl TimedOut"
    by simp
  let ?c = "(start_signal (pin ?d) ?bit)\<lparr>reads := reads ?bit + 0 + 0 + 2\<rparr>"
  have "(0::nat) \<le> 10000" "signal ?bit (pin ?d) (reads ?bit + 0) \<noteq> LOW"
    "\<forall>j<0. signal ?bit (pin ?d) (reads ?bit + j) = LOW"
    "(0::nat) \<le> 30000" "signal ?bit (pin ?d) (reads ?bit + 0 + 1 + 0) \<noteq> HIGH"
    "\<forall>j<0. signal ?bit (pin ?d) (reads ?bit + 0 + 1 + j) = HIGH" by simp_all
  from read_frame_acked [OF this]
  have rf: "read_frame ?d ?bit = read_bits 0 (pin ?d) [0, 0, 0, 0, 0] 7 0 ?c" .
  have "\<forall>j\<le>10000. signal ?c (pin ?d) (reads ?c + j) = LOW" by simp
  from read_bit_low_timeout [OF this]
  have "fst (read_bit (pin ?d) [0, 0, 0, 0, 0] 7 0 ?c) = Inl TimedOut" by simp
  from read_bits_propagates [OF _ this, of 0] rf
  have h3: "fst (read_frame ?d ?bit) = Inl TimedOut" by simp
  from read_timeout_keeps_readings [OF h1] read_timeout_keeps_readings [OF h2]
    read_timeout_keeps_readings [OF h3] h1 h2 h3
  show ?thesis by (simp add: getHumidity_def getTemperature_def)
qed

lemma read_bit_measured:
  assumes km: "k + m \<le> 10000" and pulse: "pulse_at (signal b p) (reads b) k m"
  shows "read_bit p bits cnt idx b =
     (case pack_bit (long_pulse b 0) bits cnt idx of
        None \<Rightarrow> Inl BadIndex | Some packed \<Rightarrow> Inr packed,
      b\<lparr>reads := reads b + k + m + 2, stamps := stamps b + 2\<rparr>)"
proof -
  let ?b1 = "b\<lparr>reads := reads b + k + 1\<rparr>"
  let ?b2 = "b\<lparr>reads := reads b + k + 1, stamps := stamps b + 1\<rparr>"
  let ?b3 = "b\<lparr>reads := reads b + k + m + 2, stamps := stamps b + 1\<rparr>"
  from pulse have low: "\<forall>j<k. signal b p (reads b + j) = LOW"
    and out: "signal b p (reads b + k) \<noteq> LOW"
    and high: "\<forall>j<m. signal b p (reads b + k + 1 + j) = HIGH"
    and out': "signal b p (reads b + k + 1 + m) \<noteq> HIGH"
    by (simp_all add: pulse_at_def)
  from km have k: "k \<le> 10000" and m: "m \<le> 10000 - k" by simp_all
  have p1: "poll_while LOW p 10000 b = (Some (10000 - k), ?b1)"
    using poll_while_leave [OF k out low] .
  have mi: "micros ?b1 = (clock b (stamps b), ?b2)" by (simp add: micros_def)
  have "signal ?b2 p (reads ?b2 + m) \<noteq> HIGH" "\<forall>j<m. signal ?b2 p (reads ?b2 + j) = HIGH"
    using out' high by simp_all
  from poll_while_leave [OF m this]
  have p2: "poll_while HIGH p (10000 - k) ?b2 = (Some (10000 - k - m), ?b3)"
    by (simp add: add.assoc)
  have mi': "micros ?b3 =
      (clock b (stamps b + 1), b\<lparr>reads := reads b + k + m + 2, stamps := stamps b + 2\<rparr>)"
    by (simp add: micros_def)
  have lp: "clock b (stamps b + 1) - clock b (stamps b) > 50 \<longleftrightarrow> long_pulse b 0"
    by (simp add: long_pulse_def elapsed_def)
  show ?thesis
    unfolding read_bit_def
    by (simp only: p1 mi p2 mi' lp prod.case option.case) (simp split: option.split)
qed

lemma read_bits_clean_run:
  "i \<le> n \<Longrightarrow> n \<le> 40 \<Longrightarrow> length bits = 5 \<Longrightarrow> unat idx = i div 8 \<Longrightarrow> unat cnt = 7 - i mod 8 \<Longrightarrow>
   reads b = bit_start s ks ms i \<Longrightarrow>
   (\<forall>j<n. ks j + ms j \<le> 10000 \<and> pulse_at (signal b p) (bit_start s ks ms j) (ks j) (ms j)) \<Longrightarrow>
   \<exists>bits' cnt' idx' st.
     read_bits i p bits cnt idx b =
       read_bits n p bits' cnt' idx' (b\<lparr>reads := bit_start s ks ms n, stamps := st\<rparr>) \<and>
     length bits' = 5 \<and> unat idx' = n div 8 \<and> unat cnt' = 7 - n mod 8"
proof (induction "n - i" arbitrary: i bits cnt idx b)
  case 0
  then have in_: "i = n" by simp
  have e: "bit_start s ks ms n = reads b"
    by (rule sym) (rule "0.prems"(6) [unfolded in_])
  have eq: "b\<lparr>reads := bit_start s ks ms n, stamps := stamps b\<rparr> = b"
    by (simp only: e) simp
  show ?case
  proof (intro exI conjI)
    show "read_bits i p bits cnt idx b =
      read_bits n p bits cnt idx (b\<lparr>reads := bit_start s ks ms n, stamps := stamps b\<rparr>)"
      by (simp only: eq in_)
    show "length bits = 5" by (rule "0.prems"(3))
    show "unat idx = n div 8" by (rule "0.prems"(4) [unfolded in_])
    show "unat cnt = 7 - n mod 8" by (rule "0.prems"(5) [unfolded in_])
  qed
next
  case (Suc d)
  then have i: "i < n" and d: "d = n - (i + 1)" by simp_all
  with Suc.prems have i40: "i < 40" by simp
  from Suc.prems(7) i have km: "ks i + ms i \<le> 10000"
    and pulse: "pulse_at (signal b p) (reads b) (ks i) (ms i)"
    by (simp_all add: Suc.prems(6))
  let ?b1 = "b\<lparr>reads := reads b + ks i + ms i + 2, stamps := stamps b + 2\<rparr>"
  from pack_bit_step [OF i40 Suc.prems(3,4,5), of "long_pulse b 0"]
  obtain bits1 cnt1 idx1 where
    pk: "pack_bit (long_pulse b 0) bits cnt idx = Some (bits1, cnt1, idx1)"
    and l1: "length bits1 = 5" and i1: "unat idx1 = (i + 1) div 8"
    and c1: "unat cnt1 = 7 - (i + 1) mod 8"
    and f1: "\<forall>k<40. frame_bit bits1 k \<longleftrightarrow> frame_bit bits k \<or> (long_pulse b 0 \<and> k = i)"
    by blast
  have rb: "read_bit p bits cnt idx b = (Inr (bits1, cnt1, idx1), ?b1)"
    by (simp only: read_bit_measured [OF km pulse] pk option.case)
  have step: "read_bits i p bits cnt idx b = read_bits (i + 1) p bits1 cnt1 idx1 ?b1"
    using i40 by (subst read_bits.simps) (simp add: rb)
  have r1: "reads ?b1 = bit_start s ks ms (i + 1)" by (simp add: Suc.prems(6))
  have cl: "\<forall>j<n. ks j + ms j \<le> 10000 \<and>
      pulse_at (signal ?b1 p) (bit_start s ks ms j) (ks j) (ms j)"
    using Suc.prems(7) by simp
  from i have i': "i + 1 \<le> n" by simp
  from Suc.hyps(1) [OF d i' Suc.prems(2) l1 i1 c1 r1 cl]
  obtain bits' cnt' idx' st where
    run: "read_bits (i + 1) p bits1 cnt1 idx1 ?b1 =
       read_bits n p bits' cnt' idx' (?b1\<lparr>reads := bit_start s ks ms n, stamps := st\<rparr>)"
    and inv: "length bits' = 5" "unat idx' = n div 8" "unat cnt' = 7 - n mod 8"
    by blast
  have "?b1\<lparr>reads := bit_start s ks ms n, stamps := st\<rparr> =
      b\<lparr>reads := bit_start s ks ms n, stamps := st\<rparr>" by simp
  with step run have "read_bits i p bits cnt idx b =
       read_bits n p bits' cnt' idx' (b\<lparr>reads := bit_start s ks ms n, stamps := st\<rparr>)"
    by simp
  with inv show ?case by blast
qed

text \<open>A call whose acknowledgment and first \<open>n\<close> bits come within the budgets is, from bit
  \<open>n\<close> on, the loop started at \<open>first_poll\<close>.\<close>

lemma read_frame_answered:
  assumes a: "answers d b ka ma ks ms n" and n: "n \<le> 40"
  shows "\<exists>bits' cnt' idx' st.
     read_frame d b =
       read_bits n (pin d) bits' cnt' idx'
         ((start_signal (pin d) b)\<lparr>reads := first_poll b ka ma ks ms n, stamps := st\<rparr>)"
proof -
  let ?p = "pin d"
  let ?c = "(start_signal ?p b)\<lparr>reads := reads b + ka + ma + 2\<rparr>"
  from a have ka: "ka \<le> 10000" and ma: "ma \<le> 30000"
    and ack: "pulse_at (signal b ?p) (reads b) ka ma"
    and bits: "\<forall>i<n. ks i + ms i \<le> 10000 \<and>
        pulse_at (signal b ?p) (bit_start (reads b + ka + ma + 2) ks ms i) (ks i) (ms i)"
    by (simp_all add: answers_def first_poll_def)
  from ack have "signal b ?p (reads b + ka) \<noteq> LOW" "\<forall>j<ka. signal b ?p (reads b + j) = LOW"
    "signal b ?p (reads b + ka + 1 + ma) \<noteq> HIGH" "\<forall>j<ma. signal b ?p (reads b + ka + 1 + j) = HIGH"
    by (simp_all add: pulse_at_def)
  from read_frame_acked [OF ka this(1,2) ma this(3,4)]
  have rf: "read_frame d b = read_bits 0 ?p [0, 0, 0, 0, 0] 7 0 ?c" .
  have "(0::nat) \<le> n" "length [0, 0, 0, 0, 0 :: u8] = 5" "unat (0 :: u8) = 0 div 8"
    "unat (7 :: u8) = 7 - 0 mod 8" "reads ?c = bit_start (reads b + ka + ma + 2) ks ms 0"
    by simp_all
  moreover have "\<forall>j<n. ks j + ms j \<le> 10000 \<and>
      pulse_at (signal ?c ?p) (bit_start (reads b + ka + ma + 2) ks ms j) (ks j) (ms j)"
    using bits by simp
  ultimately obtain bits' cnt' idx' st where
    "read_bits 0 ?p [0, 0, 0, 0, 0] 7 0 ?c =
       read_bits n ?p bits' cnt' idx'
         (?c\<lparr>reads := bit_start (reads b + ka + ma + 2) ks ms n, stamps := st\<rparr>)"
    using read_bits_clean_run [of 0 n "[0, 0, 0, 0, 0]" 0 7 ?c "reads b + ka + ma + 2" ks ms ?p] n
    by blast
  with rf have "read_frame d b =
       read_bits n ?p bits' cnt' idx'
         ((start_signal ?p b)\<lparr>reads := first_poll b ka ma ks ms n, stamps := st\<rparr>)"
    by (simp add: first_poll_def)
  then show ?thesis by blast
qed

lemma read_gives_up_in_low_wait:
  assumes a: "answers d b ka ma ks ms n" and n: "n < 40"
    and low: "\<forall>j\<le>10000. signal b (pin d) (first_poll b ka ma ks ms n + j) = LOW"
  shows "\<exists>b'. read d b = Some (False, d, b') \<and> reads b' = first_poll b ka ma ks ms n + 10001"
proof -
  from n have "n \<le> 40" by simp
  from read_frame_answered [OF a this] obtain bits' cnt' idx' st where
    rf: "read_frame d b = read_bits n (pin d) bits' cnt' idx'
         ((start_signal (pin d) b)\<lparr>reads := first_poll b ka ma ks ms n, stamps := st\<rparr>)"
    by blast
  let ?c = "(start_signal (pin d) b)\<lparr>reads := first_poll b ka ma ks ms n, stamps := st\<rparr>"
  have "\<forall>j\<le>10000. signal ?c (pin d) (reads ?c + j) = LOW" using low by simp
  from read_bit_low_timeout [OF this]
  have rb: "read_bit (pin d) bits' cnt' idx' ?c = (Inl TimedOut, ?c\<lparr>reads := reads ?c + 10001\<rparr>)" .
  then have "fst (read_bit (pin d) bits' cnt' idx' ?c) = Inl TimedOut" by simp
  from read_bits_propagates [OF n this] rb rf
  have rf': "read_frame d b = (Inl TimedOut, ?c\<lparr>reads := reads ?c + 10001\<rparr>)" by simp
  then have "fst (read_frame d b) = Inl TimedOut" by simp
  from read_on_timeout [OF this] rf' show ?thesis by simp
qed

lemma read_gives_up_in_high_wait:
  assumes a: "answers d b ka ma ks ms n" and n: "n < 40" and m: "m \<le> 10000"
    and low: "\<forall>j<m. signal b (pin d) (first_poll b ka ma ks ms n + j) = LOW"
    and out: "signal b (pin d) (first_poll b ka ma ks ms n + m) = HIGH"
    and high: "\<forall>j\<le>10000 - m. signal b (pin d) (first_poll b ka ma ks ms n + m + 1 + j) = HIGH"
  shows "\<exists>b'. read d b = Some (False, d, b') \<and> reads b' = first_poll b ka ma ks ms n + 10002"
proof -
  from n have "n \<le> 40" by simp
  from read_frame_answered [OF a this] obtain bits' cnt' idx' st where
    rf: "read_frame d b = read_bits n (pin d) bits' cnt' idx'
         ((start_signal (pin d) b)\<lparr>reads := first_poll b ka ma ks ms n, stamps := st\<rparr>)"
    by blast
  let ?c = "(start_signal (pin d) b)\<lparr>reads := first_poll b ka ma ks ms n, stamps := st\<rparr>"
  have "signal ?c (pin d) (reads ?c + m) \<noteq> LOW" "\<forall>j<m. signal ?c (pin d) (reads ?c + j) = LOW"
    "\<forall>j\<le>10000 - m. signal ?c (pin d) (reads ?c + m + 1 + j) = HIGH"
    using out low high by simp_all
  from read_bit_high_timeout [OF m this]
  have rb: "read_bit (pin d) bits' cnt' idx' ?c =
      (Inl TimedOut, ?c\<lparr>reads := reads ?c + 10002, stamps := stamps ?c + 1\<rparr>)" .
  then have "fst (read_bit (pin d) bits' cnt' idx' ?c) = Inl TimedOut" by simp
  from read_bits_propagates [OF n this] rb rf
  have rf': "read_frame d b =
      (Inl TimedOut, ?c\<lparr>reads := reads ?c + 10002, stamps := stamps ?c + 1\<rparr>)" by simp
  then have "fst (read_frame d b) = Inl TimedOut" by simp
  from read_on_timeout [OF this] rf' show ?thesis by simp
qed

lemma read_all_bits_answered:
  assumes a: "answers d b ka ma ks ms 40"
  shows "\<exists>bits ok d' b'. fst (read_frame d b) = Inr bits \<and> read d b = Some (ok, d', b') \<and>
     (ok \<longleftrightarrow> checksum_ok bits) \<and> reads b' = first_poll b ka ma ks ms 40"
proof -
  from read_frame_answered [OF a] obtain bits' cnt' idx' st where
    rf: "read_frame d b = read_bits 40 (pin d) bits' cnt' idx'
         ((start_signal (pin d) b)\<lparr>reads := first_poll b ka ma ks ms 40, stamps := st\<rparr>)"
    by blast
  let ?c = "(start_signal (pin d) b)\<lparr>reads := first_poll b ka ma ks ms 40, stamps := st\<rparr>"
  from rf have rf': "read_frame d b = (Inr bits', ?c)" by (simp add: read_bits.simps)
  then have fr: "fst (read_frame d b) = Inr bits'" by simp
  from read_on_frame [OF fr] obtain b' where
    r: "read d b = Some (checksum_ok bits',
       d\<lparr>humidity := uint (bits' ! 0), temperature := uint (bits' ! 2)\<rparr>, b')" by blast
  from read_board(1) [OF r] rf' have "reads b' = first_poll b ka ma ks ms 40" by simp
  with fr r show ?thesis by blast
qed

lemma bit_start_prompt: "bit_start s (\<lambda>i. 0) (\<lambda>i. 0) i = s + 2 * i"
  by (induction i) simp_all

text \<open>
  Claim C7. \<^verbatim>\<open>read\<close> returns on every sequence of pin readings, after at most
  10001 + 30001 + 40 * 10002 = 440082 polls of the pin. The low phase of the acknowledgment
  has a budget of 10000 iterations: when the pin reads low at 10001 polls in a row the call
  returns false. The high phase has a budget of 30000: when the pin then reads high at 30001
  polls in a row the call returns false. Each of the 40 bits has a fresh budget of 10000,
  whatever the acknowledgment and the bits before it have used: when the acknowledgment and
  the bits before bit \<open>n\<close> have come within their budgets and the pin then reads low at 10001
  polls in a row, the call returns false, 10001 polls into bit \<open>n\<close>. The high wait of a bit goes
  on with what its low wait has left: when the low wait of bit \<open>n\<close> has taken \<open>m\<close> iterations
  and the pin then reads high at \<open>10001 - m\<close> polls in a row, the call returns false, 10002
  polls into bit \<open>n\<close>. When the acknowledgment and all 40 bits come within their budgets, no
  wait gives up: the call has its frame after exactly the polls the waits took, and returns
  what the checksum test says. Whenever a budget is used up, the call returns false.
\<close>

theorem read_terminates_within_budgets:
  "(\<exists>ok d' b'. read d b = Some (ok, d', b') \<and>
       reads b < reads b' \<and> reads b' \<le> reads b + 440082 \<and> stamps b' \<le> stamps b + 80) \<and>
   ((\<forall>j\<le>10000. signal b (pin d) (reads b + j) = LOW) \<longrightarrow>
      (\<exists>b'. read d b = Some (False, d, b') \<and> reads b' = reads b + 10001)) \<and>
   (k \<le> 10000 \<and> (\<forall>j<k. signal b (pin d) (reads b + j) = LOW) \<and>
      signal b (pin d) (reads b + k) = HIGH \<and>
      (\<forall>j\<le>30000. signal b (pin d) (reads b + k + 1 + j) = HIGH) \<longrightarrow>
      (\<exists>b'. read d b = Some (False, d, b') \<and> reads b' = reads b + k + 30002)) \<and>
   (answers d b ka ma ks ms n \<and> n < 40 \<and>
      (\<forall>j\<le>10000. signal b (pin d) (first_poll b ka ma ks ms n + j) = LOW) \<longrightarrow>
      (\<exists>b'. read d b = Some (False, d, b') \<and>
         reads b' = first_poll b ka ma ks ms n + 10001)) \<and>
   (answers d b ka ma ks ms n \<and> n < 40 \<and> m \<le> 10000 \<and>
      (\<forall>j<m. signal b (pin d) (first_poll b ka ma ks ms n + j) = LOW) \<and>
      signal b (pin d) (first_poll b ka ma ks ms n + m) = HIGH \<and>
      (\<forall>j\<le>10000 - m. signal b (pin d) (first_poll b ka ma ks ms n + m + 1 + j) = HIGH) \<longrightarrow>
      (\<exists>b'. read d b = Some (False, d, b') \<and>
         reads b' = first_poll b ka ma ks ms n + 10002)) \<and>
   (answers d b ka ma ks ms 40 \<longrightarrow>
      (\<exists>bits ok d' b'. fst (read_frame d b) = Inr bits \<and> read d b = Some (ok, d', b') \<and>
         (ok \<longleftrightarrow> checksum_ok bits) \<and> reads b' = first_poll b ka ma ks ms 40)) \<and>
   (fst (read_frame d b) = Inl TimedOut \<longrightarrow> (\<exists>b'. read d b = Some (False, d, b')))"
proof (intro conjI impI)
  from read_total [of d b] obtain ok d' b' where r: "read d b = Some (ok, d', b')" by blast
  from read_board(1,2) [OF r] read_frame_polls [of b d]
  have "reads b < reads b'" "reads b' \<le> reads b + 440082" "stamps b' \<le> stamps b + 80"
    by simp_all
  with r show "\<exists>ok d' b'. read d b = Some (ok, d', b') \<and>
       reads b < reads b' \<and> reads b' \<le> reads b + 440082 \<and> stamps b' \<le> stamps b + 80"
    by blast
next
  assume "\<forall>j\<le>10000. signal b (pin d) (reads b + j) = LOW"
  from read_frame_stuck_low [OF this]
  have rf: "read_frame d b = (Inl TimedOut, (start_signal (pin d) b)\<lparr>reads := reads b + 10001\<rparr>)" .
  then have "fst (read_frame d b) = Inl TimedOut" by simp
  from read_on_timeout [OF this] rf
  show "\<exists>b'. read d b = Some (False, d, b') \<and> reads b' = reads b + 10001" by simp
next
  assume a: "k \<le> 10000 \<and> (\<forall>j<k. signal b (pin d) (reads b + j) = LOW) \<and>
      signal b (pin d) (reads b + k) = HIGH \<and>
      (\<forall>j\<le>30000. signal b (pin d) (reads b + k + 1 + j) = HIGH)"
  then have k: "k \<le> 10000" and out: "signal b (pin d) (reads b + k) \<noteq> LOW"
    and low: "\<forall>j<k. signal b (pin d) (reads b + j) = LOW"
    and high: "\<forall>j\<le>30000. signal b (pin d) (reads b + k + 1 + j) = HIGH" by simp_all
  have rf: "read_frame d b =
      (Inl TimedOut, (start_signal (pin d) b)\<lparr>reads := reads b + k + 30002\<rparr>)"
    by (rule read_frame_stuck_high [OF k out low high])
  then have "fst (read_frame d b) = Inl TimedOut" by simp
  from read_on_timeout [OF this] rf
  show "\<exists>b'. read d b = Some (False, d, b') \<and> reads b' = reads b + k + 30002" by simp
next
  assume a: "answers d b ka ma ks ms n \<and> n < 40 \<and>
      (\<forall>j\<le>10000. signal b (pin d) (first_poll b ka ma ks ms n + j) = LOW)"
  then have "answers d b ka ma ks ms n" "n < 40"
    "\<forall>j\<le>10000. signal b (pin d) (first_poll b ka ma ks ms n + j) = LOW" by blast+
  then show "\<exists>b'. read d b = Some (False, d, b') \<and>
      reads b' = first_poll b ka ma ks ms n + 10001"
    by (rule read_gives_up_in_low_wait)
next
  assume a: "answers d b ka ma ks ms n \<and> n < 40 \<and> m \<le> 10000 \<and>
      (\<forall>j<m. signal b (pin d) (first_poll b ka ma ks ms n + j) = LOW) \<and>
      signal b (pin d) (first_poll b ka ma ks ms n + m) = HIGH \<and>
      (\<forall>j\<le>10000 - m. signal b (pin d) (first_poll b ka ma ks ms n + m + 1 + j) = HIGH)"
  then have "answers d b ka ma ks ms n" "n < 40" "m \<le> 10000"
    "\<forall>j<m. signal b (pin d) (first_poll b ka ma ks ms n + j) = LOW"
    "signal b (pin d) (first_poll b ka ma ks ms n + m) = HIGH"
    "\<forall>j\<le>10000 - m. signal b (pin d) (first_poll b ka ma ks ms n + m + 1 + j) = HIGH"
    by blast+
  then show "\<exists>b'. read d b = Some (False, d, b') \<and>
      reads b' = first_poll b ka ma ks ms n + 10002"
    by (rule read_gives_up_in_high_wait)
next
  assume "answers d b ka ma ks ms 40"
  then show "\<exists>bits ok d' b'. fst (read_frame d b) = Inr bits \<and> read d b = Some (ok, d', b') \<and>
      (ok \<longleftrightarrow> checksum_ok bits) \<and> reads b' = first_poll b ka ma ks ms 40"
    by (rule read_all_bits_answered)
next
  assume "fst (read_frame d b) = Inl TimedOut"
  from read_on_timeout [OF this] show "\<exists>b'. read d b = Some (False, d, b')" by simp
qed

text \<open>Five lines. One that stays low: the first wait gives up after 10001 polls. One that is
  low for 3 polls and high from then on: the second wait gives up, 30005 polls into the
  call. One that answers the acknowledgment in two polls and then stays low: the low wait of
  bit 0 gives up at poll 10003 of the call. One that answers the acknowledgment and bit 0 at
  once, is then low for 10000 polls and high from then on: the low wait of bit 1 ends with
  nothing left of the budget, and its high wait gives up at its first poll, 10002 polls into
  the bit. And the square wave, which answers every wait at once: the call has a frame after
  82 polls.\<close>

theorem read_terminates_within_budgets_witness:
  "(\<exists>b'. read \<lparr>pin = 2, temperature = 25, humidity = 60\<rparr> (bench (\<lambda>p n. LOW) (\<lambda>n. 0))
        = Some (False, \<lparr>pin = 2, temperature = 25, humidity = 60\<rparr>, b') \<and> reads b' = 10001) \<and>
   (\<exists>b'. read \<lparr>pin = 2, temperature = 25, humidity = 60\<rparr>
           (bench (\<lambda>p n. if n < 3 then LOW else HIGH) (\<lambda>n. 0))
        = Some (False, \<lparr>pin = 2, temperature = 25, humidity = 60\<rparr>, b') \<and> reads b' = 30005) \<and>
   (\<exists>b'. read \<lparr>pin = 2, temperature = 25, humidity = 60\<rparr>
           (bench (\<lambda>p n. if n = 0 then HIGH else LOW) (\<lambda>n. 0))
        = Some (False, \<lparr>pin = 2, temperature = 25, humidity = 60\<rparr>, b') \<and> reads b' = 10003) \<and>
   (\<exists>b'. read \<lparr>pin = 2, temperature = 25, humidity = 60\<rparr>
           (bench (\<lambda>p n. if n = 0 \<or> n = 2 then HIGH else if n < 10004 then LOW else HIGH)
              (\<lambda>n. 0))
        = Some (False, \<lparr>pin = 2, temperature = 25, humidity = 60\<rparr>, b') \<and> reads b' = 10006) \<and>
   (\<exists>bits ok d' b'.
      fst (read_frame \<lparr>pin = 2, temperature = 25, humidity = 60\<rparr> (bench square_wave (\<lambda>n. 0)))
        = Inr bits \<and>
      read \<lparr>pin = 2, temperature = 25, humidity = 60\<rparr> (bench square_wave (\<lambda>n. 0))
        = Some (ok, d', b') \<and>
      (ok \<longleftrightarrow> checksum_ok bits) \<and> reads b' = 82)"
proof -
  let ?d = "\<lparr>pin = 2, temperature = 25, humidity = 60\<rparr>"
  let ?low = "bench (\<lambda>p n. LOW) (\<lambda>n. 0)"
  let ?high = "bench (\<lambda>p n. if n < 3 then LOW else HIGH) (\<lambda>n. 0)"
  let ?bit0 = "bench (\<lambda>p n. if n = 0 then HIGH else LOW) (\<lambda>n. 0)"
  let ?bit1 = "bench (\<lambda>p n. if n = 0 \<or> n = 2 then HIGH else if n < 10004 then LOW else HIGH)
      (\<lambda>n. 0)"
  let ?wave = "bench square_wave (\<lambda>n. 0)"
  let ?z = "\<lambda>i::nat. 0::nat"
  have "\<forall>j\<le>10000. signal ?low (pin ?d) (reads ?low + j) = LOW" by simp
  from read_terminates_within_budgets [where d = ?d and b = ?low,
      THEN conjunct2, THEN conjunct1, THEN mp, OF this]
  have w1: "\<exists>b'. read ?d ?low = Some (False, ?d, b') \<and> reads b' = 10001" by simp
  have "(3::nat) \<le> 10000 \<and> (\<forall>j<3. signal ?high (pin ?d) (reads ?high + j) = LOW) \<and>
      signal ?high (pin ?d) (reads ?high + 3) = HIGH \<and>
      (\<forall>j\<le>30000. signal ?high (pin ?d) (reads ?high + 3 + 1 + j) = HIGH)" by simp
  from read_terminates_within_budgets [where d = ?d and b = ?high and k = 3,
      THEN conjunct2, THEN conjunct2, THEN conjunct1, THEN mp, OF this]
  have w2: "\<exists>b'. read ?d ?high = Some (False, ?d, b') \<and> reads b' = 30005" by simp
  have p0: "first_poll ?bit0 0 0 ?z ?z 0 = 2" by (simp add: first_poll_def)
  have "answers ?d ?bit0 0 0 ?z ?z 0 \<and> (0::nat) < 40 \<and>
      (\<forall>j\<le>10000. signal ?bit0 (pin ?d) (first_poll ?bit0 0 0 ?z ?z 0 + j) = LOW)"
    unfolding p0 by (simp add: answers_def pulse_at_def first_poll_def)
  from read_terminates_within_budgets [where d = ?d and b = ?bit0 and ka = 0 and ma = 0
        and ks = ?z and ms = ?z and n = 0,
      THEN conjunct2, THEN conjunct2, THEN conjunct2, THEN conjunct1, THEN mp, OF this]
  have w3: "\<exists>b'. read ?d ?bit0 = Some (False, ?d, b') \<and> reads b' = 10003"
    unfolding p0 by simp
  have p1: "first_poll ?bit1 0 0 ?z ?z 1 = 4" "first_poll ?bit1 0 0 ?z ?z 0 = 2"
    by (simp_all add: first_poll_def)
  have "answers ?d ?bit1 0 0 ?z ?z 1 \<and> (1::nat) < 40 \<and> (10000::nat) \<le> 10000 \<and>
      (\<forall>j<10000. signal ?bit1 (pin ?d) (first_poll ?bit1 0 0 ?z ?z 1 + j) = LOW) \<and>
      signal ?bit1 (pin ?d) (first_poll ?bit1 0 0 ?z ?z 1 + 10000) = HIGH \<and>
      (\<forall>j\<le>10000 - 10000.
         signal ?bit1 (pin ?d) (first_poll ?bit1 0 0 ?z ?z 1 + 10000 + 1 + j) = HIGH)"
    unfolding p1 by (simp add: answers_def pulse_at_def first_poll_def)
  from read_terminates_within_budgets [where d = ?d and b = ?bit1 and ka = 0 and ma = 0
        and ks = ?z and ms = ?z and n = 1 and m = 10000,
      THEN conjunct2, THEN conjunct2, THEN conjunct2, THEN conjunct2, THEN conjunct1, THEN mp, OF this]
  have w4: "\<exists>b'. read ?d ?bit1 = Some (False, ?d, b') \<and> reads b' = 10006"
    unfolding p1 by simp
  have pw: "first_poll ?wave 0 0 ?z ?z i = 2 + 2 * i" for i
    by (simp add: first_poll_def bit_start_prompt)
  have "answers ?d ?wave 0 0 ?z ?z 40"
    by (simp add: answers_def pulse_at_def pw square_wave_def)
  from read_terminates_within_budgets [where d = ?d and b = ?wave and ka = 0 and ma = 0
        and ks = ?z and ms = ?z,
      THEN conjunct2, THEN conjunct2, THEN conjunct2, THEN conjunct2, THEN conjunct2,
      THEN conjunct1, THEN mp, OF this]
  have w5: "\<exists>bits ok d' b'. fst (read_frame ?d ?wave) = Inr bits \<and>
      read ?d ?wave = Some (ok, d', b') \<and> (ok \<longleftrightarrow> checksum_ok bits) \<and> reads b' = 82"
    by (simp add: pw)
  from w1 w2 w3 w4 w5 show ?thesis by blast
qed

section \<open>The range of the stored readings\<close>

lemma uint_byte: "0 \<le> uint (w :: u8) \<and> uint w \<le> 255"
  using uint_lt2p [of w] by simp

lemma read_byte_range:
  assumes r: "read d b = Some (ok, d', b')"
    and d: "0 \<le> temperature d" "temperature d \<le> 255" "0 \<le> humidity d" "humidity d \<le> 255"
  shows "0 \<le> temperature d' \<and> temperature d' \<le> 255 \<and> 0 \<le> humidity d' \<and> humidity d' \<le> 255"
proof (cases "fst (read_frame d b)")
  case (Inl f)
  with read_frame_no_BadIndex [of d b] have "fst (read_frame d b) = Inl TimedOut"
    by (cases f) auto
  from read_on_timeout [OF this] r have "d' = d" by simp
  with d show ?thesis by simp
next
  case (Inr bits)
  from read_on_frame [OF this] r
  have "d' = d\<lparr>humidity := uint (bits ! 0), temperature := uint (bits ! 2)\<rparr>" by auto
  then show ?thesis using uint_byte [of "bits ! 0"] uint_byte [of "bits ! 2"] by simp
qed

lemma session_bytes:
  "0 \<le> temperature d \<Longrightarrow> temperature d \<le> 255 \<Longrightarrow> 0 \<le> humidity d \<Longrightarrow> humidity d \<le> 255 \<Longrightarrow>
   \<exists>rs d' b'. session cs d b = Some (rs, d', b') \<and>
     0 \<le> temperature d' \<and> temperature d' \<le> 255 \<and> 0 \<le> humidity d' \<and> humidity d' \<le> 255 \<and>
     list_all byte_reply rs"
proof (induction cs arbitrary: d b)
  case Nil
  then show ?case by simp
next
  case (Cons c cs)
  show ?case
  proof (cases c)
    case Read
    from read_total [of d b] obtain ok d1 b1 where r: "read d b = Some (ok, d1, b1)" by blast
    from read_byte_range [OF r Cons.prems]
    have "0 \<le> temperature d1" "temperature d1 \<le> 255" "0 \<le> humidity d1" "humidity d1 \<le> 255"
      by simp_all
    from Cons.IH [OF this, of b1] obtain rs d' b' where
      "session cs d1 b1 = Some (rs, d', b')"
      "0 \<le> temperature d' \<and> temperature d' \<le> 255 \<and> 0 \<le> humidity d' \<and> humidity d' \<le> 255"
      "list_all byte_reply rs" by blast
    with r Read show ?thesis by simp
  next
    case GetTemperature
    from Cons.IH [OF Cons.prems, of b] obtain rs d' b' where
      "session cs d b = Some (rs, d', b')"
      "0 \<le> temperature d' \<and> temperature d' \<le> 255 \<and> 0 \<le> humidity d' \<and> humidity d' \<le> 255"
      "list_all byte_reply rs" by blast
    with GetTemperature Cons.prems show ?thesis by (simp add: getTemperature_def)
  next
    case GetHumidity
    from Cons.IH [OF Cons.prems, of b] obtain rs d' b' where
      "session cs d b = Some (rs, d', b')"
      "0 \<le> temperature d' \<and> temperature d' \<le> 255 \<and> 0 \<le> humidity d' \<and> humidity d' \<le> 255"
      "list_all byte_reply rs" by blast
    with GetHumidity Cons.prems show ?thesis by (simp add: getHumidity_def)
  qed
qed

text \<open>
  Claim C9. After the construction of a driver and any sequence of calls of \<^verbatim>\<open>read\<close>,
  \<^verbatim>\<open>getTemperature\<close> and \<^verbatim>\<open>getHumidity\<close>, every call has returned, the stored
  temperature and humidity are between 0 and 255, and so is every value a getter has
  returned: the fields are signed integers, but they only ever hold 0 or a byte of the
  buffer.
\<close>

theorem readings_stay_bytes:
  "\<exists>rs d' b'. session cs (fst (MyDHT11_new p b)) (snd (MyDHT11_new p b)) = Some (rs, d', b') \<and>
     0 \<le> temperature d' \<and> temperature d' \<le> 255 \<and> 0 \<le> humidity d' \<and> humidity d' \<le> 255 \<and>
     list_all byte_reply rs"
  by (rule session_bytes) (simp_all add: MyDHT11_new_def)

section \<open>Properties of waitForState\<close>

lemma waitForState_loop_true:
  "(\<forall>j<k. level_code (signal b p (reads b + j)) \<noteq> uint state \<and>
           clock b (stamps b + j) - t0 \<le> timeout) \<Longrightarrow>
   level_code (signal b p (reads b + k)) = uint state \<Longrightarrow>
   waitForState_loop p state timeout t0 b =
     Some (True, b\<lparr>reads := reads b + k + 1, stamps := stamps b + k\<rparr>)"
proof (induction k arbitrary: b)
  case 0
  then show ?case by (subst waitForState_loop.simps) (simp add: digitalRead_def)
next
  case (Suc k)
  let ?b2 = "b\<lparr>reads := reads b + 1, stamps := stamps b + 1\<rparr>"
  from Suc.prems(1) [rule_format, of 0]
  have first: "level_code (signal b p (reads b)) \<noteq> uint state" "\<not> timeout < clock b (stamps b) - t0"
    by (simp_all add: not_less)
  have "waitForState_loop p state timeout t0 ?b2 =
      Some (True, ?b2\<lparr>reads := reads ?b2 + k + 1, stamps := stamps ?b2 + k\<rparr>)"
  proof (rule Suc.IH)
    show "\<forall>j<k. level_code (signal ?b2 p (reads ?b2 + j)) \<noteq> uint state \<and>
        clock ?b2 (stamps ?b2 + j) - t0 \<le> timeout"
    proof (intro allI impI)
      fix j assume "j < k"
      then have "Suc j < Suc k" by simp
      from Suc.prems(1) [rule_format, OF this]
      show "level_code (signal ?b2 p (reads ?b2 + j)) \<noteq> uint state \<and>
        clock ?b2 (stamps ?b2 + j) - t0 \<le> timeout" by simp
    qed
    show "level_code (signal ?b2 p (reads ?b2 + k)) = uint state" using Suc.prems(2) by simp
  qed
  then have "waitForState_loop p state timeout t0 ?b2 =
      Some (True, b\<lparr>reads := reads b + Suc k + 1, stamps := stamps b + Suc k\<rparr>)" by simp
  with first show ?case
    by (subst waitForState_loop.simps) (simp add: digitalRead_def micros_def)
qed

lemma waitForState_loop_false:
  "(\<forall>j<k. level_code (signal b p (reads b + j)) \<noteq> uint state \<and>
           clock b (stamps b + j) - t0 \<le> timeout) \<Longrightarrow>
   level_code (signal b p (reads b + k)) \<noteq> uint state \<Longrightarrow>
   timeout < clock b (stamps b + k) - t0 \<Longrightarrow>
   waitForState_loop p state timeout t0 b =
     Some (False, b\<lparr>reads := reads b + k + 1, stamps := stamps b + k + 1\<rparr>)"
proof (induction k arbitrary: b)
  case 0
  then show ?case by (subst waitForState_loop.simps) (simp add: digitalRead_def micros_def)
next
  case (Suc k)
  let ?b2 = "b\<lparr>reads := reads b + 1, stamps := stamps b + 1\<rparr>"
  from Suc.prems(1) [rule_format, of 0]
  have first: "level_code (signal b p (reads b)) \<noteq> uint state" "\<not> timeout < clock b (stamps b) - t0"
    by (simp_all add: not_less)
  have "waitForState_loop p state timeout t0 ?b2 =
      Some (False, ?b2\<lparr>reads := reads ?b2 + k + 1, stamps := stamps ?b2 + k + 1\<rparr>)"
  proof (rule Suc.IH)
    show "\<forall>j<k. level_code (signal ?b2 p (reads ?b2 + j)) \<noteq> uint state \<and>
        clock ?b2 (stamps ?b2 + j) - t0 \<le> timeout"
    proof (intro allI impI)
      fix j assume "j < k"
      then have "Suc j < Suc k" by simp
      from Suc.prems(1) [rule_format, OF this]
      show "level_code (signal ?b2 p (reads ?b2 + j)) \<noteq> uint state \<and>
        clock ?b2 (stamps ?b2 + j) - t0 \<le> timeout" by simp
    qed
    show "level_code (signal ?b2 p (reads ?b2 + k)) \<noteq> uint state" using Suc.prems(2) by simp
    show "timeout < clock ?b2 (stamps ?b2 + k) - t0" using Suc.prems(3) by simp
  qed
  then have "waitForState_loop p state timeout t0 ?b2 =
      Some (False, b\<lparr>reads := reads b + Suc k + 1, stamps := stamps b + Suc k + 1\<rparr>)" by simp
  with first show ?case
    by (subst waitForState_loop.simps) (simp add: digitalRead_def micros_def)
qed

text \<open>
  Claim C10. For every value of \<^verbatim>\<open>state\<close> and of \<^verbatim>\<open>timeout\<close>: when poll \<open>k\<close> of the pin is
  the first to report the wanted level, and the elapsed time checked after each earlier poll
  has not exceeded the timeout, \<^verbatim>\<open>waitForState\<close> returns true right after that poll; when
  the level has not been seen in the polls up to \<open>k\<close> and the elapsed time checked after
  poll \<open>k\<close> is the first to exceed the timeout, it returns false right after that poll. The
  elapsed time is the \<^verbatim>\<open>unsigned long\<close> difference between the clock at the check and the clock
  when the call began. Whatever it returns, the object and its stored readings are as before.
\<close>

theorem waitForState_result:
  "((\<forall>j<k. level_code (signal b (pin d) (reads b + j)) \<noteq> uint state \<and>
            clock b (stamps b + 1 + j) - clock b (stamps b) \<le> timeout) \<and>
    level_code (signal b (pin d) (reads b + k)) = uint state \<longrightarrow>
      (\<exists>b'. waitForState d state timeout b = Some (True, d, b') \<and> reads b' = reads b + k + 1)) \<and>
   ((\<forall>j<k. level_code (signal b (pin d) (reads b + j)) \<noteq> uint state \<and>
            clock b (stamps b + 1 + j) - clock b (stamps b) \<le> timeout) \<and>
    level_code (signal b (pin d) (reads b + k)) \<noteq> uint state \<and>
    timeout < clock b (stamps b + 1 + k) - clock b (stamps b) \<longrightarrow>
      (\<exists>b'. waitForState d state timeout b = Some (False, d, b') \<and> reads b' = reads b + k + 1)) \<and>
   (waitForState d state timeout b = Some (r, d', b') \<longrightarrow>
      d' = d \<and> getHumidity d' = getHumidity d \<and> getTemperature d' = getTemperature d)"
proof (intro conjI impI)
  let ?b0 = "b\<lparr>stamps := stamps b + 1\<rparr>"
  assume a: "(\<forall>j<k. level_code (signal b (pin d) (reads b + j)) \<noteq> uint state \<and>
            clock b (stamps b + 1 + j) - clock b (stamps b) \<le> timeout) \<and>
    level_code (signal b (pin d) (reads b + k)) = uint state"
  then have "\<forall>j<k. level_code (signal ?b0 (pin d) (reads ?b0 + j)) \<noteq> uint state \<and>
      clock ?b0 (stamps ?b0 + j) - clock b (stamps b) \<le> timeout"
    and "level_code (signal ?b0 (pin d) (reads ?b0 + k)) = uint state" by simp_all
  from waitForState_loop_true [OF this]
  show "\<exists>b'. waitForState d state timeout b = Some (True, d, b') \<and> reads b' = reads b + k + 1"
    by (simp add: waitForState_def micros_def)
next
  let ?b0 = "b\<lparr>stamps := stamps b + 1\<rparr>"
  assume a: "(\<forall>j<k. level_code (signal b (pin d) (reads b + j)) \<noteq> uint state \<and>
            clock b (stamps b + 1 + j) - clock b (stamps b) \<le> timeout) \<and>
    level_code (signal b (pin d) (reads b + k)) \<noteq> uint state \<and>
    timeout < clock b (stamps b + 1 + k) - clock b (stamps b)"
  then have "\<forall>j<k. level_code (signal ?b0 (pin d) (reads ?b0 + j)) \<noteq> uint state \<and>
      clock ?b0 (stamps ?b0 + j) - clock b (stamps b) \<le> timeout"
    and "level_code (signal ?b0 (pin d) (reads ?b0 + k)) \<noteq> uint state"
    and "timeout < clock ?b0 (stamps ?b0 + k) - clock b (stamps b)" by simp_all
  from waitForState_loop_false [OF this]
  show "\<exists>b'. waitForState d state timeout b = Some (False, d, b') \<and> reads b' = reads b + k + 1"
    by (simp add: waitForState_def micros_def)
next
  assume "waitForState d state timeout b = Some (r, d', b')"
  then show "d' = d" by (auto simp: waitForState_def split: prod.splits)
next
  assume "waitForState d state timeout b = Some (r, d', b')"
  then show "getHumidity d' = getHumidity d" by (auto simp: waitForState_def split: prod.splits)
next
  assume "waitForState d state timeout b = Some (r, d', b')"
  then show "getTemperature d' = getTemperature d"
    by (auto simp: waitForState_def split: prod.splits)
qed

text \<open>Waiting for a high level: on a line that rises at its third poll, with a timeout
  of 1000, the call returns true after three polls; on a line that stays low, with a timeout
  of 15 and a clock that jumps to 100 at the second check, it returns false after two.\<close>

theorem waitForState_result_witness:
  "(\<exists>b'. waitForState \<lparr>pin = 2, temperature = 25, humidity = 60\<rparr> 1 1000
         (bench (\<lambda>p n. if n < 2 then LOW else HIGH) (\<lambda>n. if n = 0 then 0 else 5))
       = Some (True, \<lparr>pin = 2, temperature = 25, humidity = 60\<rparr>, b') \<and> reads b' = 3) \<and>
   (\<exists>b'. waitForState \<lparr>pin = 2, temperature = 25, humidity = 60\<rparr> 1 15
         (bench (\<lambda>p n. LOW) (\<lambda>n. if n \<le> 1 then 0 else 100))
       = Some (False, \<lparr>pin = 2, temperature = 25, humidity = 60\<rparr>, b') \<and> reads b' = 2)"
proof -
  let ?d = "\<lparr>pin = 2, temperature = 25, humidity = 60\<rparr>"
  let ?rise = "bench (\<lambda>p n. if n < 2 then LOW else HIGH) (\<lambda>n. if n = 0 then 0 else 5)"
  let ?flat = "bench (\<lambda>p n. LOW) (\<lambda>n. if n \<le> 1 then 0 else 100)"
  have "(\<forall>j<2. level_code (signal ?rise (pin ?d) (reads ?rise + j)) \<noteq> uint (1 :: u8) \<and>
            clock ?rise (stamps ?rise + 1 + j) - clock ?rise (stamps ?rise) \<le> 1000) \<and>
    level_code (signal ?rise (pin ?d) (reads ?rise + 2)) = uint (1 :: u8)" by simp
  from waitForState_result [of 2 ?rise ?d 1 1000, THEN conjunct1, rule_format, OF this]
  have w1: "\<exists>b'. waitForState ?d 1 1000 ?rise = Some (True, ?d, b') \<and> reads b' = 3"
    by (simp add: numeral_3_eq_3)
  have "(\<forall>j<1. level_code (signal ?flat (pin ?d) (reads ?flat + j)) \<noteq> uint (1 :: u8) \<and>
            clock ?flat (stamps ?flat + 1 + j) - clock ?flat (stamps ?flat) \<le> 15) \<and>
    level_code (signal ?flat (pin ?d) (reads ?flat + 1)) \<noteq> uint (1 :: u8) \<and>
    15 < clock ?flat (stamps ?flat + 1 + 1) - clock ?flat (stamps ?flat)" by simp
  from waitForState_result [of 1 ?flat ?d 1 15, THEN conjunct2, THEN conjunct1, rule_format,
      OF this]
  have w2: "\<exists>b'. waitForState ?d 1 15 ?flat = Some (False, ?d, b') \<and> reads b' = 2"
    by (simp add: numeral_2_eq_2)
  from w1 w2 show ?thesis by blast
qed

section \<open>Construction\<close>

text \<open>
  Claim C8. A freshly constructed driver, before any call of \<^verbatim>\<open>read\<close>, has stored the
  pin identifier, has configured that pin as a digital input, and answers 0 to both
  \<^verbatim>\<open>getTemperature\<close> and \<^verbatim>\<open>getHumidity\<close>.
\<close>

theorem construction_defaults:
  "pin (fst (MyDHT11_new p b)) = p \<and>
   modes (snd (MyDHT11_new p b)) p = Some INPUT \<and>
   getTemperature (fst (MyDHT11_new p b)) = 0 \<and>
   getHumidity (fst (MyDHT11_new p b)) = 0"
  by (simp add: MyDHT11_new_def pinMode_def getTemperature_def getHumidity_def)

end
